theory Spec2Isabelle
  imports Main "HOL-Library.Word" "HOL-Library.AList"
begin

section \<open>Time\<close>

text \<open>
  A Go \<open>time.Time\<close> is read as the number of nanoseconds on the clock that the
  comparison uses, a \<open>time.Duration\<close> as a number of nanoseconds. \<open>t.After(u)\<close>
  is \<open>u < t\<close>, \<open>t.Add(d)\<close> is \<open>t + d\<close>.
\<close>

type_synonym time = int
type_synonym duration = int

definition Minute :: duration where
  "Minute = 60000000000"

definition Hour :: duration where
  "Hour = 60 * Minute"

section \<open>services: the rate limiter\<close>

text \<open>
  \<^verbatim>\<open>
  type RateLimiter struct {
      requests map[string][]time.Time
      mu       sync.Mutex
  }
  \<close>
  Every method holds \<open>mu\<close> from entry to return, so the methods are atomic and the
  limiter is a state passed from call to call. A key that is absent from a Go map reads
  as the nil slice.
\<close>

record RateLimiter =
  requests :: "string \<rightharpoonup> time list"

definition NewRateLimiter :: RateLimiter where
  "NewRateLimiter = \<lparr>requests = Map.empty\<rparr>"

definition bucket :: "RateLimiter \<Rightarrow> string \<Rightarrow> time list" where
  "bucket rl key = (case requests rl key of None \<Rightarrow> [] | Some reqs \<Rightarrow> reqs)"

text \<open>
  \<^verbatim>\<open>
  func (rl *RateLimiter) Allow(key string, limit int, window time.Duration) bool {
      rl.mu.Lock()
      defer rl.mu.Unlock()
      now := time.Now()
      cutoff := now.Add(-window)
      reqs := rl.requests[key]
      var valid []time.Time
      for _, t := range reqs {
          if t.After(cutoff) {
              valid = append(valid, t)
          }
      }
      if len(valid) >= limit {
          return false
      }
      rl.requests[key] = append(valid, now)
      return true
  }
  \<close>
  The first argument of \<open>Allow\<close> is the reading of \<open>time.Now()\<close>. The filtered slice is
  stored only on the granting path; the denying path returns before the assignment.
\<close>

definition Allow :: "time \<Rightarrow> string \<Rightarrow> int \<Rightarrow> duration \<Rightarrow> RateLimiter \<Rightarrow> bool \<times> RateLimiter" where
  "Allow now key limit window rl =
     (let cutoff = now + (- window);
          reqs = bucket rl key;
          valid = filter (\<lambda>t. cutoff < t) reqs
      in if limit \<le> int (length valid) then (False, rl)
         else (True, rl\<lparr>requests := (requests rl)(key \<mapsto> valid @ [now])\<rparr>))"

text \<open>
  \<^verbatim>\<open>
  func (rl *RateLimiter) cleanup() {
      rl.mu.Lock()
      defer rl.mu.Unlock()
      cutoff := time.Now().Add(-5 * time.Minute)
      for key, reqs := range rl.requests {
          var valid []time.Time
          for _, t := range reqs {
              if t.After(cutoff) {
                  valid = append(valid, t)
              }
          }
          if len(valid) == 0 {
              delete(rl.requests, key)
          } else {
              rl.requests[key] = valid
          }
      }
  }
  \<close>
  The sweeper's pass, run every five minutes, with its fixed retention of five minutes.
\<close>

definition cleanup :: "time \<Rightarrow> RateLimiter \<Rightarrow> RateLimiter" where
  "cleanup now rl =
     (let cutoff = now + (- 5 * Minute)
      in rl\<lparr>requests := (\<lambda>key. case requests rl key of
                None \<Rightarrow> None
              | Some reqs \<Rightarrow>
                  (let valid = filter (\<lambda>t. cutoff < t) reqs
                   in if length valid = 0 then None else Some valid))\<rparr>)"

text \<open>
  A history of the limiter: calls of \<open>Allow\<close> and passes of the sweeper, each with the
  clock reading it takes. \<open>granted key evs rl\<close> lists, in order, the readings of the
  calls on \<open>key\<close> that returned true.
\<close>

datatype rl_event =
    EvAllow time string int duration
  | EvCleanup time

fun ev_time :: "rl_event \<Rightarrow> time" where
  "ev_time (EvAllow now key limit window) = now"
| "ev_time (EvCleanup now) = now"

fun granted :: "string \<Rightarrow> rl_event list \<Rightarrow> RateLimiter \<Rightarrow> time list" where
  "granted k [] rl = []"
| "granted k (EvAllow now key limit window # evs) rl =
     (case Allow now key limit window rl of
        (ok, rl') \<Rightarrow> (if ok \<and> key = k then [now] else []) @ granted k evs rl')"
| "granted k (EvCleanup now # evs) rl = granted k evs (cleanup now rl)"

fun uses :: "string \<Rightarrow> int \<Rightarrow> duration \<Rightarrow> rl_event \<Rightarrow> bool" where
  "uses k limit window (EvAllow now key l w) = (key = k \<longrightarrow> l = limit \<and> w = window)"
| "uses k limit window (EvCleanup now) = True"

section \<open>services: the session store\<close>

record Session =
  ID :: string
  DeviceHash :: string
  CreatedAt :: time
  ExpiresAt :: time
  LastUsed :: time
  UserAgent :: string
  IP :: string

text \<open>
  \<open>sessions\<close> is a Go map; \<open>load\<close> can leave it nil (a sessions file holding
  \<open>null\<close>), which reads as empty and panics on assignment. \<open>None\<close> is the nil map.
\<close>

record SessionStore =
  sessions :: "(string \<rightharpoonup> Session) option"

definition lookup_session :: "SessionStore \<Rightarrow> string \<Rightarrow> Session option" where
  "lookup_session s sessionID = (case sessions s of None \<Rightarrow> None | Some m \<Rightarrow> m sessionID)"

text \<open>
  \<^verbatim>\<open>
  func (s *SessionStore) Get(sessionID string) *Session {
      s.mu.RLock()
      defer s.mu.RUnlock()
      session, exists := s.sessions[sessionID]
      if !exists || time.Now().After(session.ExpiresAt) {
          return nil
      }
      return session
  }
  \<close>
  The first argument of \<open>Get\<close> is the reading of \<open>time.Now()\<close>.
\<close>

definition Get :: "time \<Rightarrow> string \<Rightarrow> SessionStore \<Rightarrow> Session option" where
  "Get now sessionID s =
     (case lookup_session s sessionID of
        None \<Rightarrow> None
      | Some session \<Rightarrow> if ExpiresAt session < now then None else Some session)"

text \<open>
  \<open>Create\<close> reads the clock three times and draws the identifier from
  \<open>crypto/rand\<close>; the readings, the identifier and the digest function are inputs.
\<close>

record CreateEnv =
  now_created :: time
  now_expires :: time
  now_used :: time
  rand_hex :: string
  hashString :: "string \<Rightarrow> string"

definition getIPPrefix :: "string \<Rightarrow> string" where
  "getIPPrefix ip = ip"

definition Create :: "CreateEnv \<Rightarrow> string \<Rightarrow> string \<Rightarrow> SessionStore \<Rightarrow> (Session \<times> SessionStore) option" where
  "Create env userAgent ip s =
     (let session = \<lparr>ID = rand_hex env,
                     DeviceHash = hashString env (userAgent @ getIPPrefix ip),
                     CreatedAt = now_created env,
                     ExpiresAt = now_expires env + 30 * 24 * Hour,
                     LastUsed = now_used env,
                     UserAgent = userAgent,
                     IP = ip\<rparr>
      in case sessions s of
           None \<Rightarrow> None
         | Some m \<Rightarrow> Some (session, s\<lparr>sessions := Some (m(rand_hex env \<mapsto> session))\<rparr>))"

section \<open>handlers: login\<close>

record AuthService =
  PIN :: string
  Store :: SessionStore
  Limiter :: RateLimiter

text \<open>
  What \<open>HandleLogin\<close> reads of the request: the method, the address that
  \<open>services.GetClientIP\<close> extracts, the outcome of decoding the body into
  \<open>LoginRequest\<close> (\<open>None\<close> when the decoder fails, else the \<open>pin\<close> member, empty when
  the member is missing) and the \<open>User-Agent\<close> header.
\<close>

record Request =
  Method :: string
  ClientIP :: string
  Body :: "string option"
  UA :: string

record AuthResponse =
  Success :: bool
  Message :: string
  Authenticated :: bool
  ExpiresAtStr :: string

text \<open>
  The reply: the status (200 when \<open>WriteHeader\<close> is not called), the encoded
  \<open>AuthResponse\<close> if one is written, and the value of the \<open>vb_session\<close> cookie if one is set.
\<close>

record Response =
  status :: nat
  body :: "AuthResponse option"
  cookie :: "string option"

record LoginEnv =
  now_allow :: time
  create_env :: CreateEnv
  rfc3339 :: "time \<Rightarrow> string"

text \<open>
  \<^verbatim>\<open>
  func (h *AuthHandler) HandleLogin(w http.ResponseWriter, r *http.Request) {
      w.Header().Set("Content-Type", "application/json")
      if r.Method != "POST" {
          w.WriteHeader(http.StatusMethodNotAllowed)
          return
      }
      ip := services.GetClientIP(r)
      if !h.AuthService.RateLimiter.Allow(ip+":login", 5, time.Minute) {
          w.WriteHeader(http.StatusTooManyRequests)
          json.NewEncoder(w).Encode(AuthResponse{Success: false, Message: "Too many attempts"})
          return
      }
      var req LoginRequest
      if err := json.NewDecoder(r.Body).Decode(&req); err != nil {
          w.WriteHeader(http.StatusBadRequest)
          return
      }
      if req.PIN != h.AuthService.PIN {
          w.WriteHeader(http.StatusUnauthorized)
          json.NewEncoder(w).Encode(AuthResponse{Success: false, Message: "Invalid PIN"})
          return
      }
      session := h.AuthService.SessionStore.Create(r.Header.Get("User-Agent"), ip)
      services.SetSessionCookie(w, session.ID)
      json.NewEncoder(w).Encode(AuthResponse{
          Success:       true,
          Authenticated: true,
          ExpiresAt:     session.ExpiresAt.Format(time.RFC3339),
      })
  }
  \<close>
  The outcome of one call: \<open>None\<close> is a panic inside \<open>Create\<close> (assignment into a nil
  map), which \<open>net/http\<close> recovers without a reply; the limiter has been charged by then.
  The handler \<open>handleLogin\<close> of the earlier package \<open>main\<close> makes the same checks in the same
  order, with other messages.
\<close>

definition HandleLogin :: "LoginEnv \<Rightarrow> Request \<Rightarrow> AuthService \<Rightarrow> Response option \<times> AuthService" where
  "HandleLogin env r h =
     (if Method r \<noteq> ''POST'' then
        (Some \<lparr>status = 405, body = None, cookie = None\<rparr>, h)
      else
        let ip = ClientIP r in
        case Allow (now_allow env) (ip @ '':login'') 5 Minute (Limiter h) of
          (False, rl) \<Rightarrow>
            (Some \<lparr>status = 429,
                   body = Some \<lparr>Success = False, Message = ''Too many attempts'',
                                Authenticated = False, ExpiresAtStr = ''''\<rparr>,
                   cookie = None\<rparr>, h\<lparr>Limiter := rl\<rparr>)
        | (True, rl) \<Rightarrow>
            (let h1 = h\<lparr>Limiter := rl\<rparr> in
             case Body r of
               None \<Rightarrow> (Some \<lparr>status = 400, body = None, cookie = None\<rparr>, h1)
             | Some pin \<Rightarrow>
                 if pin \<noteq> PIN h1 then
                   (Some \<lparr>status = 401,
                          body = Some \<lparr>Success = False, Message = ''Invalid PIN'',
                                       Authenticated = False, ExpiresAtStr = ''''\<rparr>,
                          cookie = None\<rparr>, h1)
                 else
                   (case Create (create_env env) (UA r) ip (Store h1) of
                      None \<Rightarrow> (None, h1)
                    | Some (session, st) \<Rightarrow>
                        (Some \<lparr>status = 200,
                               body = Some \<lparr>Success = True, Message = '''',
                                            Authenticated = True,
                                            ExpiresAtStr = rfc3339 env (ExpiresAt session)\<rparr>,
                               cookie = Some (ID session)\<rparr>,
                         h1\<lparr>Store := st\<rparr>))))"

text \<open>
  A run of login requests, each with its inputs; the replies are returned in order.
\<close>

fun logins :: "(LoginEnv \<times> Request) list \<Rightarrow> AuthService \<Rightarrow> Response option list \<times> AuthService" where
  "logins [] h = ([], h)"
| "logins ((env, r) # rs) h =
     (case HandleLogin env r h of
        (resp, h') \<Rightarrow> (case logins rs h' of (resps, h'') \<Rightarrow> (resp # resps, h'')))"

section \<open>Scenario inputs\<close>

text \<open>
  The inputs of scenario S2: a service with the default PIN, an empty session store and a
  fresh limiter; requests from one address; the clock reading of each call.
\<close>

definition S2_service :: AuthService where
  "S2_service = \<lparr>PIN = ''274683'', Store = \<lparr>sessions = Some Map.empty\<rparr>, Limiter = NewRateLimiter\<rparr>"

definition S2_env :: "time \<Rightarrow> LoginEnv" where
  "S2_env t = \<lparr>now_allow = t,
               create_env = \<lparr>now_created = t, now_expires = t, now_used = t,
                             rand_hex = ''5e55'', hashString = (\<lambda>s. '''')\<rparr>,
               rfc3339 = (\<lambda>t. '''')\<rparr>"

definition S2_request :: "string option \<Rightarrow> Request" where
  "S2_request b = \<lparr>Method = ''POST'', ClientIP = ''10.0.0.1'', Body = b, UA = ''Mozilla/5.0''\<rparr>"

definition S2_attempt :: "int \<Rightarrow> string option \<Rightarrow> LoginEnv \<times> Request" where
  "S2_attempt seconds b = (S2_env (seconds * 1000000000), S2_request b)"

text \<open>A session whose lifetime of thirty days starts at clock reading 0.\<close>

definition demo_session :: Session where
  "demo_session = \<lparr>ID = ''a1'', DeviceHash = ''d0'', CreatedAt = 0, ExpiresAt = 30 * 24 * Hour,
                    LastUsed = 0, UserAgent = ''Mozilla/5.0'', IP = ''10.0.0.1''\<rparr>"

section \<open>stores: the versioned documents\<close>

type_synonym int64 = "64 word"

text \<open>
  A path is the list of the arguments of \<open>filepath.Join\<close>. A file is read as the value
  whose JSON encoding it holds (\<open>None\<close> for \<open>null\<close>).
\<close>

type_synonym path = "string list"

datatype error = WriteFileError

text \<open>
  What a store call takes from outside: \<open>stamp\<close> is
  \<open>time.Now().UTC().Format(time.RFC3339)\<close>, \<open>today\<close> is \<open>time.Now().Format("2006-01-02")\<close>,
  \<open>archive_write_ok\<close> tells whether encoding and writing the archive file succeed, and
  \<open>save_ok\<close> whether \<open>save\<close> does. A write that fails is taken to leave the disk as it
  was. \<open>state\<close> is a pointer: \<open>None\<close> is nil; the constructors never leave it nil.
\<close>

record StoreEnv =
  stamp :: string
  today :: string
  archive_write_ok :: bool
  save_ok :: bool

record MatchdayState =
  Version :: int64
  LastUpdated :: string
  HomeTeam :: string
  AwayTeam :: string
  Date :: string
  DvvLink :: string
  MatchID :: string

record MatchdayStore =
  dataDir :: string
  currentFile :: path
  state :: "MatchdayState option"

definition MatchdayStore_save ::
  "StoreEnv \<Rightarrow> MatchdayStore \<Rightarrow> (path \<rightharpoonup> MatchdayState option)
     \<Rightarrow> error option \<times> (path \<rightharpoonup> MatchdayState option)" where
  "MatchdayStore_save env s disk =
     (if save_ok env then (None, disk(currentFile s \<mapsto> state s)) else (Some WriteFileError, disk))"

definition MatchdayStore_GetState :: "MatchdayStore \<Rightarrow> MatchdayState" where
  "MatchdayStore_GetState s =
     (case state s of
        None \<Rightarrow> \<lparr>Version = 0, LastUpdated = '''', HomeTeam = '''', AwayTeam = '''', Date = '''',
                  DvvLink = '''', MatchID = ''''\<rparr>
      | Some st \<Rightarrow> st)"

text \<open>
  \<^verbatim>\<open>
  func (s *MatchdayStore) UpdateState(newState models.MatchdayState) error {
      s.mu.Lock()
      defer s.mu.Unlock()

      newState.Version = s.state.Version + 1
      newState.LastUpdated = time.Now().UTC().Format(time.RFC3339)
      s.state = &newState

      return s.save()
  }
  \<close>
  \<open>ScoutStore.UpdateState\<close> is the same text on \<open>models.ScoutState\<close>. The result is
  \<open>None\<close> when \<open>s.state\<close> is nil (the dereference panics); else the error of \<open>save\<close>, the
  store and the disk. The store is changed before \<open>save\<close> runs and stays so when it fails.
\<close>

definition MatchdayStore_UpdateState ::
  "StoreEnv \<Rightarrow> MatchdayState \<Rightarrow> MatchdayStore \<Rightarrow> (path \<rightharpoonup> MatchdayState option)
     \<Rightarrow> (error option \<times> MatchdayStore \<times> (path \<rightharpoonup> MatchdayState option)) option" where
  "MatchdayStore_UpdateState env newState s disk =
     (case state s of
        None \<Rightarrow> None
      | Some old \<Rightarrow>
          (let newState1 = newState\<lparr>Version := Version old + 1\<rparr>;
               newState2 = newState1\<lparr>LastUpdated := stamp env\<rparr>;
               s' = s\<lparr>state := Some newState2\<rparr>
           in case MatchdayStore_save env s' disk of (err, disk') \<Rightarrow> Some (err, s', disk')))"

fun MatchdayStore_updates ::
  "(StoreEnv \<times> MatchdayState) list \<Rightarrow> MatchdayStore \<Rightarrow> (path \<rightharpoonup> MatchdayState option)
     \<Rightarrow> (error option list \<times> MatchdayStore \<times> (path \<rightharpoonup> MatchdayState option)) option" where
  "MatchdayStore_updates [] s disk = Some ([], s, disk)"
| "MatchdayStore_updates ((env, d) # ds) s disk =
     (case MatchdayStore_UpdateState env d s disk of
        None \<Rightarrow> None
      | Some (err, s', disk') \<Rightarrow>
          (case MatchdayStore_updates ds s' disk' of
             None \<Rightarrow> None
           | Some (errs, s'', disk'') \<Rightarrow> Some (err # errs, s'', disk'')))"


record 'p ScoutState =
  Version :: int64
  LastUpdated :: string
  MatchName :: string
  MatchDate :: string
  Players :: "'p list"

record 'p ScoutStore =
  dataDir :: string
  currentFile :: path
  state :: "'p ScoutState option"

definition ScoutStore_save ::
  "StoreEnv \<Rightarrow> 'p ScoutStore \<Rightarrow> (path \<rightharpoonup> 'p ScoutState option)
     \<Rightarrow> error option \<times> (path \<rightharpoonup> 'p ScoutState option)" where
  "ScoutStore_save env s disk =
     (if save_ok env then (None, disk(currentFile s \<mapsto> state s)) else (Some WriteFileError, disk))"

definition ScoutStore_GetState :: "StoreEnv \<Rightarrow> 'p ScoutStore \<Rightarrow> 'p ScoutState" where
  "ScoutStore_GetState env s =
     (case state s of
        None \<Rightarrow> \<lparr>Version = 0, LastUpdated = stamp env, MatchName = '''', MatchDate = '''', Players = []\<rparr>
      | Some st \<Rightarrow> st)"

definition ScoutStore_GetVersion :: "'p ScoutStore \<Rightarrow> int64" where
  "ScoutStore_GetVersion s = (case state s of None \<Rightarrow> 0 | Some st \<Rightarrow> Version st)"

definition ScoutStore_UpdateState ::
  "StoreEnv \<Rightarrow> 'p ScoutState \<Rightarrow> 'p ScoutStore \<Rightarrow> (path \<rightharpoonup> 'p ScoutState option)
     \<Rightarrow> (error option \<times> 'p ScoutStore \<times> (path \<rightharpoonup> 'p ScoutState option)) option" where
  "ScoutStore_UpdateState env newState s disk =
     (case state s of
        None \<Rightarrow> None
      | Some old \<Rightarrow>
          (let newState1 = newState\<lparr>Version := Version old + 1\<rparr>;
               newState2 = newState1\<lparr>LastUpdated := stamp env\<rparr>;
               s' = s\<lparr>state := Some newState2\<rparr>
           in case ScoutStore_save env s' disk of (err, disk') \<Rightarrow> Some (err, s', disk')))"

text \<open>
  \<^verbatim>\<open>
  func replaceAll(s, old, new string) string {
      for i := 0; i < len(s); i++ {
          if i+len(old) <= len(s) && s[i:i+len(old)] == old {
              s = s[:i] + new + s[i+len(old):]
          }
      }
      return s
  }
  \<close>
  The bound \<open>len(s)\<close> is read again in every round, and a replacement longer than what it
  replaces moves it; the loop need not end, so its result is an option.
\<close>

partial_function (option) replaceAll_loop :: "nat \<Rightarrow> string \<Rightarrow> string \<Rightarrow> string \<Rightarrow> string option" where
  "replaceAll_loop i s old new =
     (if i < length s then
        (if i + length old \<le> length s \<and> take (length old) (drop i s) = old
         then replaceAll_loop (i + 1) (take i s @ new @ drop (i + length old) s) old new
         else replaceAll_loop (i + 1) s old new)
      else Some s)"

definition replaceAll :: "string \<Rightarrow> string \<Rightarrow> string \<Rightarrow> string option" where
  "replaceAll s old new = replaceAll_loop 0 s old new"

definition invalid :: "string list" where
  "invalid = [''/'', [CHR 0x5C], '':'', ''*'', ''?'', [CHR 0x22], ''<'', ''>'', ''|'', '' '']"

fun sanitize_from :: "string list \<Rightarrow> string \<Rightarrow> string option" where
  "sanitize_from [] result = Some result"
| "sanitize_from (char # chars) result =
     (case replaceAll result char ''_'' of
        None \<Rightarrow> None
      | Some result' \<Rightarrow> sanitize_from chars result')"

definition sanitizeFilename :: "string \<Rightarrow> string option" where
  "sanitizeFilename name = sanitize_from invalid name"

text \<open>
  \<^verbatim>\<open>
  func (s *ScoutStore) ArchiveMatch() error {
      s.mu.Lock()
      defer s.mu.Unlock()

      if s.state == nil || s.state.MatchName == "" {
          return nil
      }

      archiveName := s.state.MatchDate + "_" + sanitizeFilename(s.state.MatchName) + ".json"
      archivePath := filepath.Join(s.dataDir, "archive", archiveName)

      data, err := json.MarshalIndent(s.state, "", "  ")
      if err != nil {
          return err
      }
      if err := ioutil.WriteFile(archivePath, data, 0644); err != nil {
          return err
      }

      s.state = &models.ScoutState{
          Version:     1,
          LastUpdated: time.Now().UTC().Format(time.RFC3339),
          MatchName:   "",
          MatchDate:   time.Now().Format("2006-01-02"),
          Players:     []models.Player{},
      }

      return s.save()
  }
  \<close>
  The result is \<open>None\<close> when the call does not return; else the error (\<open>None\<close> for nil),
  the store and the disk it leaves.
\<close>

definition ScoutStore_ArchiveMatch ::
  "StoreEnv \<Rightarrow> 'p ScoutStore \<Rightarrow> (path \<rightharpoonup> 'p ScoutState option)
     \<Rightarrow> (error option \<times> 'p ScoutStore \<times> (path \<rightharpoonup> 'p ScoutState option)) option" where
  "ScoutStore_ArchiveMatch env s disk =
     (case state s of
        None \<Rightarrow> Some (None, s, disk)
      | Some st \<Rightarrow>
          if MatchName st = '''' then Some (None, s, disk)
          else
            (case sanitizeFilename (MatchName st) of
               None \<Rightarrow> None
             | Some clean \<Rightarrow>
                 (let archiveName = MatchDate st @ ''_'' @ clean @ ''.json'';
                      archivePath = [dataDir s, ''archive'', archiveName]
                  in if \<not> archive_write_ok env then Some (Some WriteFileError, s, disk)
                     else
                       (let disk1 = disk(archivePath \<mapsto> Some st);
                            s' = s\<lparr>state := Some \<lparr>Version = 1, LastUpdated = stamp env,
                                                  MatchName = '''', MatchDate = today env,
                                                  Players = []\<rparr>\<rparr>
                        in case ScoutStore_save env s' disk1 of
                             (err, disk') \<Rightarrow> Some (err, s', disk')))))"

text \<open>Runs of updates, each with its inputs; the errors are returned in order.\<close>

fun ScoutStore_updates ::
  "(StoreEnv \<times> 'p ScoutState) list \<Rightarrow> 'p ScoutStore \<Rightarrow> (path \<rightharpoonup> 'p ScoutState option)
     \<Rightarrow> (error option list \<times> 'p ScoutStore \<times> (path \<rightharpoonup> 'p ScoutState option)) option" where
  "ScoutStore_updates [] s disk = Some ([], s, disk)"
| "ScoutStore_updates ((env, d) # ds) s disk =
     (case ScoutStore_UpdateState env d s disk of
        None \<Rightarrow> None
      | Some (err, s', disk') \<Rightarrow>
          (case ScoutStore_updates ds s' disk' of
             None \<Rightarrow> None
           | Some (errs, s'', disk'') \<Rightarrow> Some (err # errs, s'', disk'')))"

text \<open>
  Scenario S6 and the inputs of the update scenarios: a clock, a disk that takes every
  write, a scout document with two players, the fresh document that an archive leaves,
  and a store that holds a given document.
\<close>

definition S6_env :: StoreEnv where
  "S6_env = \<lparr>stamp = ''2024-03-15T20:00:00Z'', today = ''2024-03-15'',
             archive_write_ok = True, save_ok = True\<rparr>"

definition S6_doc :: "string ScoutState" where
  "S6_doc = \<lparr>Version = 7, LastUpdated = ''2024-03-15T18:00:00Z'', MatchName = ''Final'',
             MatchDate = ''2024-03-15'', Players = [''p1'', ''p2'']\<rparr>"

definition S6_fresh :: "string ScoutState" where
  "S6_fresh = \<lparr>Version = 1, LastUpdated = ''2024-03-15T20:00:00Z'', MatchName = '''',
               MatchDate = ''2024-03-15'', Players = []\<rparr>"

definition S6_store :: "string ScoutState \<Rightarrow> string ScoutStore" where
  "S6_store d = \<lparr>dataDir = ''data'', currentFile = [''data'', ''scout-current.json''],
                 state = Some d\<rparr>"

definition S6_disk :: "path \<rightharpoonup> string ScoutState option" where
  "S6_disk = [[''data'', ''archive'', ''2024-03-15_Final.json''] \<mapsto> Some S6_doc,
              [''data'', ''scout-current.json''] \<mapsto> Some S6_fresh]"

text \<open>
  A store whose version is the largest \<open>int64\<close>, a document as a caller posts it, with
  a version of its own, and a matchday store.
\<close>

definition S3_store :: "string ScoutStore" where
  "S3_store = S6_store (S6_doc\<lparr>Version := 0x7FFFFFFFFFFFFFFF\<rparr>)"

definition S3_caller :: "string ScoutState" where
  "S3_caller = \<lparr>Version = 99, LastUpdated = ''1999-01-01T00:00:00Z'', MatchName = ''A vs B'',
                MatchDate = ''2024-01-01'', Players = []\<rparr>"

definition S3_matchday :: MatchdayState where
  "S3_matchday = \<lparr>MatchdayState.Version = 41, MatchdayState.LastUpdated = ''2024-01-01T00:00:00Z'',
                  HomeTeam = ''Heim'', AwayTeam = ''Gast'', Date = ''2024-01-01'',
                  DvvLink = '''', MatchID = ''''\<rparr>"

definition S3_matchday_store :: "MatchdayState \<Rightarrow> MatchdayStore" where
  "S3_matchday_store d = \<lparr>MatchdayStore.dataDir = ''data'',
                           MatchdayStore.currentFile = [''data'', ''matchday-current.json''],
                           MatchdayStore.state = Some d\<rparr>"

section \<open>services: the bot filter\<close>

text \<open>
  Each pattern is \<open>(?i)\<close> followed by a literal in lower case. Under \<open>(?i)\<close> a letter
  of the pattern matches every rune of its simple case-folding orbit: the letter, its
  capital, and for \<open>s\<close> and \<open>k\<close> also U+017F (bytes C5 BF) and U+212A (bytes E2 84 AA).
  \<open>fold_match p s\<close> consumes one rune of \<open>s\<close> that matches the pattern byte \<open>p\<close>.
\<close>

definition fold_match :: "char \<Rightarrow> string \<Rightarrow> string option" where
  "fold_match p s =
     (case s of
        [] \<Rightarrow> None
      | c # cs \<Rightarrow>
          if c = p then Some cs
          else if 97 \<le> (of_char p :: nat) \<and> (of_char p :: nat) \<le> 122 \<and> (of_char c :: nat) + 32 = of_char p
            then Some cs
          else if p = CHR ''s'' \<and> c = CHR 0xC5 then
            (case cs of d # ds \<Rightarrow> if d = CHR 0xBF then Some ds else None | [] \<Rightarrow> None)
          else if p = CHR ''k'' \<and> c = CHR 0xE2 then
            (case cs of
               d1 # d2 # ds \<Rightarrow> if d1 = CHR 0x84 \<and> d2 = CHR 0xAA then Some ds else None
             | _ \<Rightarrow> None)
          else None)"

fun match_here :: "string \<Rightarrow> string \<Rightarrow> bool" where
  "match_here [] s = True"
| "match_here (p # ps) s =
     (case fold_match p s of None \<Rightarrow> False | Some rest \<Rightarrow> match_here ps rest)"

fun MatchString :: "string \<Rightarrow> string \<Rightarrow> bool" where
  "MatchString pat [] = match_here pat []"
| "MatchString pat (c # cs) = (match_here pat (c # cs) \<or> MatchString pat cs)"

text \<open>The patterns of package \<open>services\<close>, which the server is wired to.\<close>

definition botPatterns :: "string list" where
  "botPatterns = [''bot'', ''crawler'', ''spider'', ''scraper'', ''curl'', ''wget'']"

fun first_match :: "string list \<Rightarrow> string \<Rightarrow> bool" where
  "first_match [] userAgent = False"
| "first_match (pattern # patterns) userAgent =
     (if MatchString pattern userAgent then True else first_match patterns userAgent)"

definition IsBot :: "string \<Rightarrow> bool" where
  "IsBot userAgent = (if userAgent = '''' then False else first_match botPatterns userAgent)"

text \<open>The patterns and the filter of the earlier package \<open>main\<close>.\<close>

definition main_botPatterns :: "string list" where
  "main_botPatterns = [''bot'', ''crawler'', ''spider'', ''scraper'', ''curl'', ''wget'',
                       ''python-requests'', ''headless'', ''phantom'', ''selenium'']"

definition isBot :: "string \<Rightarrow> bool" where
  "isBot userAgent = (if userAgent = '''' then False else first_match main_botPatterns userAgent)"

section \<open>relay: the hub\<close>

datatype ClientType = ClientTypeMoblin | ClientTypeBrowser

text \<open>
  A channel of byte frames, made with capacity 256: the frames it buffers, oldest first,
  and whether it has been closed. Channels live in a store and are named by references,
  as the hub reaches the same channel through \<open>clients\<close>, \<open>browsers\<close> and \<open>moblin\<close>.
\<close>

record chan =
  buf :: "string list"
  closed :: bool

type_synonym chan_ref = nat
type_synonym chans = "chan_ref \<rightharpoonup> chan"

record Client =
  ID :: string
  Type :: ClientType
  Send :: chan_ref
  Authorized :: bool

text \<open>
  The maps of the hub are lists of distinct keys with their values; a \<open>range\<close> loop
  visits them in the order of the list.
\<close>

record Relay =
  clients :: "(string \<times> Client) list"
  moblin :: "Client option"
  browsers :: "(string \<times> Client) list"
  password :: string

definition NewRelay :: "string \<Rightarrow> Relay" where
  "NewRelay pw = \<lparr>clients = [], moblin = None, browsers = [], password = pw\<rparr>"

datatype panic = SendOnClosedChannel | CloseOfClosedChannel | CloseOfNilChannel

text \<open>
  \<^verbatim>\<open>select { case c.Send <- message: default: }\<close>
  The send is taken when the buffer has room, the default branch otherwise; a nil channel
  is never ready; a closed channel panics.
\<close>

definition try_send :: "chan_ref \<Rightarrow> string \<Rightarrow> chans \<Rightarrow> panic + chans" where
  "try_send c message h =
     (case h c of
        None \<Rightarrow> Inr h
      | Some ch \<Rightarrow>
          if closed ch then Inl SendOnClosedChannel
          else if length (buf ch) < 256 then Inr (h(c \<mapsto> ch\<lparr>buf := buf ch @ [message]\<rparr>))
          else Inr h)"

definition close_chan :: "chan_ref \<Rightarrow> chans \<Rightarrow> panic + chans" where
  "close_chan c h =
     (case h c of
        None \<Rightarrow> Inl CloseOfNilChannel
      | Some ch \<Rightarrow>
          if closed ch then Inl CloseOfClosedChannel
          else Inr (h(c \<mapsto> ch\<lparr>closed := True\<rparr>)))"

fun send_each :: "Client list \<Rightarrow> string \<Rightarrow> chans \<Rightarrow> panic + chans" where
  "send_each [] message h = Inr h"
| "send_each (client # rest) message h =
     (case try_send (Send client) message h of
        Inl p \<Rightarrow> Inl p
      | Inr h' \<Rightarrow> send_each rest message h')"

text \<open>
  \<open>json.Marshal\<close> of a \<open>Message\<close> whose only field that is not zero is \<open>Type\<close>: every
  other field is tagged \<open>omitempty\<close>, and the two types sent need no escaping.
\<close>

definition Marshal_Type :: "string \<Rightarrow> string" where
  "Marshal_Type t = ''{'' @ [CHR 0x22] @ ''type'' @ [CHR 0x22] @ '':'' @ [CHR 0x22] @ t @ [CHR 0x22] @ ''}''"

definition notifyBrowsers :: "Relay \<Rightarrow> string \<Rightarrow> chans \<Rightarrow> panic + chans" where
  "notifyBrowsers r msg_type h = send_each (map snd (browsers r)) (Marshal_Type msg_type) h"

datatype event = Register Client | Unregister Client | Broadcast string

text \<open>
  One round of the loop of \<open>Run\<close>, by the channel that delivers (the log lines left out):
  \<^verbatim>\<open>
  case client := <-r.register:
      r.mu.Lock()
      r.clients[client.ID] = client
      if client.Type == ClientTypeMoblin {
          r.moblin = client
          r.notifyBrowsers(Message{Type: "moblin_connected"})
      } else {
          r.browsers[client.ID] = client
      }
      r.mu.Unlock()

  case client := <-r.unregister:
      r.mu.Lock()
      if _, ok := r.clients[client.ID]; ok {
          delete(r.clients, client.ID)
          close(client.Send)
          if client.Type == ClientTypeMoblin {
              r.moblin = nil
              r.notifyBrowsers(Message{Type: "moblin_disconnected"})
          } else {
              delete(r.browsers, client.ID)
          }
      }
      r.mu.Unlock()

  case message := <-r.broadcast:
      r.mu.RLock()
      for _, client := range r.clients {
          select {
          case client.Send <- message:
          default:
          }
      }
      r.mu.RUnlock()
  \<close>
  A round either ends or panics; it waits for no peer, so it is a total function whose
  result is a panic or the next state.
\<close>

fun Run_step :: "event \<Rightarrow> Relay \<Rightarrow> chans \<Rightarrow> panic + Relay \<times> chans" where
  "Run_step (Register client) r h =
     (let r1 = r\<lparr>clients := AList.update (ID client) client (clients r)\<rparr>
      in if Type client = ClientTypeMoblin then
           (let r2 = r1\<lparr>moblin := Some client\<rparr>
            in case notifyBrowsers r2 ''moblin_connected'' h of
                 Inl p \<Rightarrow> Inl p
               | Inr h' \<Rightarrow> Inr (r2, h'))
         else Inr (r1\<lparr>browsers := AList.update (ID client) client (browsers r1)\<rparr>, h))"
| "Run_step (Unregister client) r h =
     (case map_of (clients r) (ID client) of
        None \<Rightarrow> Inr (r, h)
      | Some found \<Rightarrow>
          (let r1 = r\<lparr>clients := AList.delete (ID client) (clients r)\<rparr>
           in case close_chan (Send client) h of
                Inl p \<Rightarrow> Inl p
              | Inr h1 \<Rightarrow>
                  if Type client = ClientTypeMoblin then
                    (let r2 = r1\<lparr>moblin := None\<rparr>
                     in case notifyBrowsers r2 ''moblin_disconnected'' h1 of
                          Inl p \<Rightarrow> Inl p
                        | Inr h2 \<Rightarrow> Inr (r2, h2))
                  else Inr (r1\<lparr>browsers := AList.delete (ID client) (browsers r1)\<rparr>, h1)))"
| "Run_step (Broadcast message) r h =
     (case send_each (map snd (clients r)) message h of
        Inl p \<Rightarrow> Inl p
      | Inr h' \<Rightarrow> Inr (r, h'))"

text \<open>The loop over the events that arrive, in their order; a panic ends it.\<close>

fun Run :: "event list \<Rightarrow> Relay \<Rightarrow> chans \<Rightarrow> panic + Relay \<times> chans" where
  "Run [] r h = Inr (r, h)"
| "Run (ev # evs) r h =
     (case Run_step ev r h of
        Inl p \<Rightarrow> Inl p
      | Inr (r', h') \<Rightarrow> Run evs r' h')"

text \<open>
  The registry as \<open>ServeWS\<close> and the read pumps drive it. \<open>hub_inv\<close>: the keys are
  distinct, every registered peer has a channel of its own that is open, and \<open>browsers\<close>
  holds registered peers of kind browser only. \<open>admissible\<close>: a register event carries a
  peer with a new id and a new open channel (\<open>ServeWS\<close> makes both), an unregister event
  carries a peer as it was registered, or one that is registered no more.
\<close>

definition hub_inv :: "Relay \<Rightarrow> chans \<Rightarrow> bool" where
  "hub_inv r h \<longleftrightarrow>
     distinct (map fst (clients r))
     \<and> distinct (map (Send \<circ> snd) (clients r))
     \<and> (\<forall>(k, c) \<in> set (clients r). \<exists>ch. h (Send c) = Some ch \<and> \<not> closed ch)
     \<and> set (browsers r) \<subseteq> set (clients r)
     \<and> distinct (map fst (browsers r))
     \<and> (\<forall>(k, b) \<in> set (browsers r). Type b = ClientTypeBrowser)"

fun admissible :: "event \<Rightarrow> Relay \<Rightarrow> chans \<Rightarrow> bool" where
  "admissible (Register client) r h \<longleftrightarrow>
     ID client \<notin> fst ` set (clients r)
     \<and> Send client \<notin> (Send \<circ> snd) ` set (clients r)
     \<and> (\<exists>ch. h (Send client) = Some ch \<and> \<not> closed ch)"
| "admissible (Unregister client) r h \<longleftrightarrow>
     map_of (clients r) (ID client) = None \<or> map_of (clients r) (ID client) = Some client"
| "admissible (Broadcast message) r h \<longleftrightarrow> True"

fun admissible_run :: "event list \<Rightarrow> Relay \<Rightarrow> chans \<Rightarrow> bool" where
  "admissible_run [] r h \<longleftrightarrow> True"
| "admissible_run (ev # evs) r h \<longleftrightarrow>
     admissible ev r h
     \<and> (case Run_step ev r h of Inl p \<Rightarrow> True | Inr (r', h') \<Rightarrow> admissible_run evs r' h')"

text \<open>
  Scenario S4: browser \<open>B1\<close> and two controllers, each with the channel that \<open>ServeWS\<close>
  made for it.
\<close>

definition B1 :: Client where
  "B1 = \<lparr>ID = ''browser-1'', Type = ClientTypeBrowser, Send = 1, Authorized = True\<rparr>"

definition C1 :: Client where
  "C1 = \<lparr>ID = ''moblin-2'', Type = ClientTypeMoblin, Send = 2, Authorized = True\<rparr>"

definition C2 :: Client where
  "C2 = \<lparr>ID = ''moblin-3'', Type = ClientTypeMoblin, Send = 3, Authorized = True\<rparr>"

definition S4_chans :: chans where
  "S4_chans = [1 \<mapsto> \<lparr>buf = [], closed = False\<rparr>,
               2 \<mapsto> \<lparr>buf = [], closed = False\<rparr>,
               3 \<mapsto> \<lparr>buf = [], closed = False\<rparr>]"

text \<open>
  The hub after \<open>B1\<close> has registered, and after \<open>C1\<close> has registered next.
\<close>

definition S4_relay :: Relay where
  "S4_relay = \<lparr>clients = [(''browser-1'', B1)], moblin = None,
               browsers = [(''browser-1'', B1)], password = ''''\<rparr>"

definition S4_relay_C1 :: Relay where
  "S4_relay_C1 = \<lparr>clients = [(''browser-1'', B1), (''moblin-2'', C1)], moblin = Some C1,
                  browsers = [(''browser-1'', B1)], password = ''''\<rparr>"

text \<open>
  Scenario S5: a browser that does not read, its queue full, and one that does.
\<close>

definition S5_relay :: Relay where
  "S5_relay = \<lparr>clients = [(''browser-1'', B1), (''browser-4'', B1\<lparr>ID := ''browser-4'', Send := 4\<rparr>)],
               moblin = None,
               browsers = [(''browser-1'', B1), (''browser-4'', B1\<lparr>ID := ''browser-4'', Send := 4\<rparr>)],
               password = ''''\<rparr>"

definition S5_chans :: chans where
  "S5_chans = [1 \<mapsto> \<lparr>buf = replicate 256 ''frame'', closed = False\<rparr>,
               4 \<mapsto> \<lparr>buf = [], closed = False\<rparr>]"



section \<open>Properties of the rate limiter\<close>

lemma bucket_Allow_other:
  "key \<noteq> k \<Longrightarrow> bucket (snd (Allow now key l w rl)) k = bucket rl k"
  by (simp add: Allow_def bucket_def Let_def)

lemma bucket_Allow_same:
  "bucket (snd (Allow now k l w rl)) k =
     (if l \<le> int (length (filter (\<lambda>t. now - w < t) (bucket rl k))) then bucket rl k
      else filter (\<lambda>t. now - w < t) (bucket rl k) @ [now])"
  by (simp add: Allow_def bucket_def Let_def)

lemma fst_Allow:
  "fst (Allow now k l w rl) = (\<not> l \<le> int (length (filter (\<lambda>t. now - w < t) (bucket rl k))))"
  by (simp add: Allow_def Let_def)

lemma bucket_cleanup:
  "bucket (cleanup now rl) k = filter (\<lambda>t. now - 5 * Minute < t) (bucket rl k)"
  by (simp add: cleanup_def bucket_def Let_def split: option.splits)

lemma granted_ge:
  "\<forall>e \<in> set evs. c \<le> ev_time e \<Longrightarrow> \<forall>t \<in> set (granted k evs rl). c \<le> t"
proof (induction evs arbitrary: rl)
  case Nil
  then show ?case by simp
next
  case (Cons e evs)
  then show ?case by (cases e) (auto split: prod.splits)
qed

lemma filter_filter_le:
  fixes a b :: int
  shows "a \<le> b \<Longrightarrow> filter (\<lambda>t. b < t) (filter (\<lambda>t. a < t) xs) = filter (\<lambda>t. b < t) xs"
  by (induction xs) auto

lemma granted_window_gen:
  assumes "0 \<le> limit" and "window \<le> 5 * Minute"
    and "\<forall>e \<in> set evs. uses k limit window e"
    and "sorted (map ev_time evs)"
    and "\<forall>b \<in> set (bucket rl k). \<forall>e \<in> set evs. b \<le> ev_time e"
    and "int (length (bucket rl k)) \<le> limit"
  shows "int (length (filter (\<lambda>b. T - window < b) (bucket rl k))
            + length (filter (\<lambda>t. T - window < t \<and> t \<le> T) (granted k evs rl))) \<le> limit"
  using assms(3-6)
proof (induction evs arbitrary: rl)
  case Nil
  have "length (filter (\<lambda>b. T - window < b) (bucket rl k)) \<le> length (bucket rl k)"
    by (rule length_filter_le)
  with Nil.prems(4) have "int (length (filter (\<lambda>b. T - window < b) (bucket rl k))) \<le> limit"
    by linarith
  then show ?case by simp
next
  case (Cons e evs)
  have len: "length (filter (\<lambda>b. T - window < b) (bucket rl k)) \<le> length (bucket rl k)"
    by (rule length_filter_le)
  have later: "\<forall>e' \<in> set evs. ev_time e \<le> ev_time e'"
    using Cons.prems(2) by simp
  have srt: "sorted (map ev_time evs)"
    using Cons.prems(2) by simp
  have us: "\<forall>e \<in> set evs. uses k limit window e"
    using Cons.prems(1) by simp
  show ?case
  proof (cases "T < ev_time e")
    case True
    have "\<forall>t \<in> set (granted k (e # evs) rl). ev_time e \<le> t"
      by (rule granted_ge) (use later in auto)
    with True have "filter (\<lambda>t. T - window < t \<and> t \<le> T) (granted k (e # evs) rl) = []"
      by (auto simp: filter_empty_conv)
    then have "length (filter (\<lambda>t. T - window < t \<and> t \<le> T) (granted k (e # evs) rl)) = 0"
      by simp
    with len Cons.prems(4) show ?thesis by linarith
  next
    case False
    then have Tge: "ev_time e \<le> T" by simp
    show ?thesis
    proof (cases e)
      case (EvCleanup now)
      let ?rl = "cleanup now rl"
      have b': "bucket ?rl k = filter (\<lambda>t. now - 5 * Minute < t) (bucket rl k)"
        by (rule bucket_cleanup)
      have p1: "\<forall>b \<in> set (bucket ?rl k). \<forall>e \<in> set evs. b \<le> ev_time e"
        using Cons.prems(3) by (simp add: b')
      have "length (bucket ?rl k) \<le> length (bucket rl k)"
        by (simp add: b')
      then have p2: "int (length (bucket ?rl k)) \<le> limit"
        using Cons.prems(4) by linarith
      have "now - 5 * Minute \<le> T - window"
        using Tge assms(2) EvCleanup by simp
      then have "filter (\<lambda>b. T - window < b) (bucket ?rl k) = filter (\<lambda>b. T - window < b) (bucket rl k)"
        unfolding b' by (rule filter_filter_le)
      with Cons.IH [OF us srt p1 p2] show ?thesis
        by (simp add: EvCleanup)
    next
      case (EvAllow now key l w)
      let ?res = "Allow now key l w rl"
      let ?rl = "snd ?res"
      have g: "granted k (e # evs) rl =
                 (if fst ?res \<and> key = k then [now] else []) @ granted k evs ?rl"
        by (simp add: EvAllow split: prod.splits)
      show ?thesis
      proof (cases "key = k")
        case other: False
        have b': "bucket ?rl k = bucket rl k"
          using other by (rule bucket_Allow_other)
        have p1: "\<forall>b \<in> set (bucket ?rl k). \<forall>e \<in> set evs. b \<le> ev_time e"
          using Cons.prems(3) by (simp add: b')
        have p2: "int (length (bucket ?rl k)) \<le> limit"
          using Cons.prems(4) by (simp add: b')
        from Cons.IH [OF us srt p1 p2] show ?thesis
          using other by (simp add: g b')
      next
        case same: True
        have lw: "l = limit" "w = window"
          using Cons.prems(1) same by (simp_all add: EvAllow)
        let ?valid = "filter (\<lambda>t. now - window < t) (bucket rl k)"
        show ?thesis
        proof (cases "limit \<le> int (length ?valid)")
          case denied: True
          have b': "bucket ?rl k = bucket rl k"
            using denied by (simp add: same lw bucket_Allow_same)
          have f: "\<not> fst ?res"
            using denied by (simp add: same lw fst_Allow)
          have p1: "\<forall>b \<in> set (bucket ?rl k). \<forall>e \<in> set evs. b \<le> ev_time e"
            using Cons.prems(3) by (simp add: b')
          have p2: "int (length (bucket ?rl k)) \<le> limit"
            using Cons.prems(4) by (simp add: b')
          from Cons.IH [OF us srt p1 p2] show ?thesis
            using f by (simp add: g b')
        next
          case ok: False
          have b': "bucket ?rl k = ?valid @ [now]"
            using ok by (simp add: same lw bucket_Allow_same)
          have f: "fst ?res"
            using ok by (simp add: same lw fst_Allow)
          have bnow: "\<forall>b \<in> set (bucket rl k). b \<le> now"
            using Cons.prems(3) by (simp add: EvAllow)
          have p1: "\<forall>b \<in> set (bucket ?rl k). \<forall>e \<in> set evs. b \<le> ev_time e"
          proof (intro ballI)
            fix b e' assume "b \<in> set (bucket ?rl k)" and e': "e' \<in> set evs"
            then have "b \<le> now" using bnow by (auto simp: b')
            moreover have "now \<le> ev_time e'" using later e' by (simp add: EvAllow)
            ultimately show "b \<le> ev_time e'" by simp
          qed
          have p2: "int (length (bucket ?rl k)) \<le> limit"
            using ok by (simp add: b')
          have "now - window \<le> T - window"
            using Tge by (simp add: EvAllow)
          then have ff: "filter (\<lambda>b. T - window < b) ?valid = filter (\<lambda>b. T - window < b) (bucket rl k)"
            by (rule filter_filter_le)
          have Tnow: "now \<le> T"
            using Tge by (simp add: EvAllow)
          have gk: "granted k (e # evs) rl = now # granted k evs ?rl"
            using f same by (simp add: g)
          have A: "filter (\<lambda>b. T - window < b) (?valid @ [now]) =
                     filter (\<lambda>b. T - window < b) (bucket rl k) @ (if T - window < now then [now] else [])"
            unfolding filter_append ff by simp
          have "int (length (filter (\<lambda>b. T - window < b) (bucket rl k) @ (if T - window < now then [now] else []))
                  + length (filter (\<lambda>t. T - window < t \<and> t \<le> T) (granted k evs ?rl))) \<le> limit"
            using Cons.IH [OF us srt p1 p2] by (simp only: b' A)
          then show ?thesis
            unfolding gk using Tnow by (simp split: if_splits)
        qed
      qed
    qed
  qed
qed

text \<open>
  C4 as stated fails: the sweeper keeps five minutes of history whatever the window of the
  caller. With a window of ten minutes and limit 1, the stamp of a granted call at 0 is
  swept at minute 6, and the call at minute 7 is granted: two grants inside one window.
\<close>

theorem allow_window_counterexample:
  "granted ''10.0.0.1''
     [EvAllow 0 ''10.0.0.1'' 1 (10 * Minute),
      EvCleanup (1 * Minute),
      EvCleanup (6 * Minute),
      EvAllow (7 * Minute) ''10.0.0.1'' 1 (10 * Minute)]
     NewRateLimiter = [0, 7 * Minute]
   \<and> 7 * Minute - 0 < 10 * Minute"
  by (simp add: Allow_def cleanup_def bucket_def NewRateLimiter_def Minute_def Let_def)

text \<open>
  C4, amended: for a limit that is not negative and a window of at most five minutes (the
  sweeper's retention), on a clock that does not run backwards, in any history of calls
  and sweeps starting from a fresh limiter in which every call on key \<open>k\<close> uses this limit
  and window, the calls on \<open>k\<close> that return true and whose readings lie in one half-open
  interval of length \<open>window\<close> number at most \<open>limit\<close>.
\<close>

theorem allow_window_bound:
  assumes "0 \<le> limit" and "window \<le> 5 * Minute"
    and "\<forall>e \<in> set evs. uses k limit window e"
    and "sorted (map ev_time evs)"
  shows "int (length (filter (\<lambda>t. a < t \<and> t \<le> a + window) (granted k evs NewRateLimiter))) \<le> limit
       \<and> int (length (filter (\<lambda>t. a \<le> t \<and> t < a + window) (granted k evs NewRateLimiter))) \<le> limit"
proof -
  have e: "bucket NewRateLimiter k = []"
    by (simp add: bucket_def NewRateLimiter_def)
  have p5: "\<forall>b \<in> set (bucket NewRateLimiter k). \<forall>e \<in> set evs. b \<le> ev_time e"
    by (simp add: e)
  have p6: "int (length (bucket NewRateLimiter k)) \<le> limit"
    using assms(1) by (simp add: e)
  have "int (length (filter (\<lambda>t. (a + window) - window < t \<and> t \<le> a + window)
              (granted k evs NewRateLimiter))) \<le> limit"
    using granted_window_gen [OF assms(1-4) p5 p6, of "a + window"] by (simp add: e)
  then have c1: "int (length (filter (\<lambda>t. a < t \<and> t \<le> a + window) (granted k evs NewRateLimiter))) \<le> limit"
    by simp
  have "int (length (filter (\<lambda>t. (a - 1 + window) - window < t \<and> t \<le> a - 1 + window)
              (granted k evs NewRateLimiter))) \<le> limit"
    using granted_window_gen [OF assms(1-4) p5 p6, of "a - 1 + window"] by (simp add: e)
  moreover have "(\<lambda>t. (a - 1 + window) - window < t \<and> t \<le> a - 1 + window) = (\<lambda>t. a \<le> t \<and> t < a + window)"
    by (rule ext) auto
  ultimately have c2: "int (length (filter (\<lambda>t. a \<le> t \<and> t < a + window) (granted k evs NewRateLimiter))) \<le> limit"
    by simp
  from c1 c2 show ?thesis ..
qed

theorem allow_window_bound_witness:
  "int (length (filter (\<lambda>t. 0 < t \<and> t \<le> 0 + Minute)
      (granted ''10.0.0.1''
         [EvAllow 1 ''10.0.0.1'' 2 Minute, EvAllow 2 ''10.0.0.1'' 2 Minute,
          EvAllow 3 ''10.0.0.1'' 2 Minute, EvCleanup 4, EvAllow 5 ''10.0.0.1'' 2 Minute]
         NewRateLimiter))) \<le> 2
   \<and> int (length (filter (\<lambda>t. 0 \<le> t \<and> t < 0 + Minute)
      (granted ''10.0.0.1''
         [EvAllow 1 ''10.0.0.1'' 2 Minute, EvAllow 2 ''10.0.0.1'' 2 Minute,
          EvAllow 3 ''10.0.0.1'' 2 Minute, EvCleanup 4, EvAllow 5 ''10.0.0.1'' 2 Minute]
         NewRateLimiter))) \<le> 2"
  by (rule allow_window_bound) (simp_all add: Minute_def)

section \<open>Properties of the session store\<close>

text \<open>
  C8 as stated fails at the instant \<open>now = expires_at\<close>: \<open>After\<close> is strict, so the
  record is still returned there.
\<close>

theorem session_get_counterexample:
  "Get (30 * 24 * Hour) ''a1'' \<lparr>sessions = Some [''a1'' \<mapsto> demo_session]\<rparr> = Some demo_session
   \<and> ExpiresAt demo_session = 30 * 24 * Hour"
  by (simp add: Get_def lookup_session_def demo_session_def)

text \<open>
  C8, amended: \<open>Get\<close> returns the stored record iff the id is present and
  \<open>now \<le> expires_at\<close>; it returns absent exactly when the id is missing or
  \<open>now > expires_at\<close>.
\<close>

theorem session_get_iff:
  "Get now sessionID s = Some x \<longleftrightarrow> lookup_session s sessionID = Some x \<and> now \<le> ExpiresAt x"
  by (auto simp: Get_def split: option.splits)

section \<open>Properties of the login handler\<close>

lemma Allow_live:
  assumes "\<forall>b \<in> set (bucket rl key). b \<le> t1 - w \<or> T - w < b" and "t1 \<le> now" and "now \<le> T"
  shows "filter (\<lambda>b. now - w < b) (bucket rl key) = filter (\<lambda>b. T - w < b) (bucket rl key)"
  using assms by (intro filter_cong) auto

lemma HandleLogin_limiter:
  "Method r = ''POST'' \<Longrightarrow>
     Limiter (snd (HandleLogin env r h)) =
       snd (Allow (now_allow env) (ClientIP r @ '':login'') 5 Minute (Limiter h))
     \<and> PIN (snd (HandleLogin env r h)) = PIN h"
  by (simp add: HandleLogin_def Let_def split: prod.splits bool.splits option.splits)

lemma login_denied:
  "Method r = ''POST'' \<Longrightarrow>
   \<not> fst (Allow (now_allow env) (ClientIP r @ '':login'') 5 Minute (Limiter h)) \<Longrightarrow>
   fst (HandleLogin env r h) =
     Some \<lparr>status = 429,
           body = Some \<lparr>Success = False, Message = ''Too many attempts'',
                        Authenticated = False, ExpiresAtStr = ''''\<rparr>,
           cookie = None\<rparr>"
  by (cases "Allow (now_allow env) (ClientIP r @ '':login'') 5 Minute (Limiter h)")
     (simp add: HandleLogin_def Let_def split: bool.splits option.splits)

lemma login_wrong_pin:
  "Method r = ''POST'' \<Longrightarrow>
   fst (Allow (now_allow env) (ClientIP r @ '':login'') 5 Minute (Limiter h)) \<Longrightarrow>
   Body r = Some p \<Longrightarrow> p \<noteq> PIN h \<Longrightarrow>
   fst (HandleLogin env r h) =
     Some \<lparr>status = 401,
           body = Some \<lparr>Success = False, Message = ''Invalid PIN'',
                        Authenticated = False, ExpiresAtStr = ''''\<rparr>,
           cookie = None\<rparr>"
  by (cases "Allow (now_allow env) (ClientIP r @ '':login'') 5 Minute (Limiter h)")
     (simp add: HandleLogin_def Let_def split: bool.splits option.splits)

lemma fst_Allow':
  "fst (Allow now k l w rl) = (\<not> l \<le> int (length (filter (\<lambda>t. now - w < t) (bucket rl k))))"
  by (simp add: Allow_def Let_def)

lemma bucket_Allow':
  "bucket (snd (Allow now k l w rl)) k =
     (if l \<le> int (length (filter (\<lambda>t. now - w < t) (bucket rl k))) then bucket rl k
      else filter (\<lambda>t. now - w < t) (bucket rl k) @ [now])"
  by (simp add: Allow_def bucket_def Let_def)

lemma logins_append:
  "logins (xs @ ys) h =
     (fst (logins xs h) @ fst (logins ys (snd (logins xs h))), snd (logins ys (snd (logins xs h))))"
  by (induction xs arbitrary: h) (auto split: prod.splits)

lemma length_logins: "length (fst (logins rs h)) = length rs"
proof (induction rs arbitrary: h)
  case Nil
  show ?case by simp
next
  case (Cons er rs)
  obtain e r where er: "er = (e, r)" by (cases er)
  have "logins (er # rs) h =
          (fst (HandleLogin e r h) # fst (logins rs (snd (HandleLogin e r h))),
           snd (logins rs (snd (HandleLogin e r h))))"
    by (simp add: er split: prod.splits)
  then show ?case by (simp add: Cons.IH)
qed

lemma logins_charge:
  assumes "\<forall>(e, r) \<in> set rs. Method r = ''POST'' \<and> ClientIP r = ip \<and> t1 \<le> now_allow e \<and> now_allow e \<le> T"
    and "T - t1 < Minute"
    and "\<forall>b \<in> set (bucket (Limiter h) (ip @ '':login'')). b \<le> t1 - Minute \<or> T - Minute < b"
    and "length (filter (\<lambda>b. T - Minute < b) (bucket (Limiter h) (ip @ '':login''))) + length rs \<le> 5"
  shows "filter (\<lambda>b. T - Minute < b) (bucket (Limiter (snd (logins rs h))) (ip @ '':login'')) =
           filter (\<lambda>b. T - Minute < b) (bucket (Limiter h) (ip @ '':login'')) @ map (\<lambda>(e, r). now_allow e) rs
         \<and> (\<forall>b \<in> set (bucket (Limiter (snd (logins rs h))) (ip @ '':login'')). b \<le> t1 - Minute \<or> T - Minute < b)
         \<and> PIN (snd (logins rs h)) = PIN h
         \<and> (rs \<noteq> [] \<longrightarrow> (\<forall>b \<in> set (bucket (Limiter (snd (logins rs h))) (ip @ '':login'')). T - Minute < b))
         \<and> ((\<forall>(e, r) \<in> set rs. \<exists>p. Body r = Some p \<and> p \<noteq> PIN h) \<longrightarrow>
              fst (logins rs h) = replicate (length rs)
                (Some \<lparr>status = 401,
                       body = Some \<lparr>Success = False, Message = ''Invalid PIN'',
                                    Authenticated = False, ExpiresAtStr = ''''\<rparr>,
                       cookie = None\<rparr>))"
  using assms(1,3,4)
proof (induction rs arbitrary: h)
  case Nil
  then show ?case by simp
next
  case (Cons er rs)
  obtain e r where er: "er = (e, r)" by (cases er)
  let ?key = "ip @ '':login''"
  let ?h = "snd (HandleLogin e r h)"
  let ?live = "filter (\<lambda>b. T - Minute < b) (bucket (Limiter h) ?key)"
  have r: "Method r = ''POST''" "ClientIP r = ip" "t1 \<le> now_allow e" "now_allow e \<le> T"
    using Cons.prems(1) by (simp_all add: er)
  have live: "filter (\<lambda>b. now_allow e - Minute < b) (bucket (Limiter h) ?key) = ?live"
    using Cons.prems(2) r(3,4) by (rule Allow_live)
  have lt5: "length ?live < 5"
    using Cons.prems(3) by simp
  have ok: "fst (Allow (now_allow e) (ClientIP r @ '':login'') 5 Minute (Limiter h))"
    using lt5 by (simp add: fst_Allow' r(2) live)
  have lim: "Limiter ?h = snd (Allow (now_allow e) ?key 5 Minute (Limiter h))"
    and pin: "PIN ?h = PIN h"
    using HandleLogin_limiter [OF r(1), of e h] by (simp_all add: r(2))
  have b': "bucket (Limiter ?h) ?key = ?live @ [now_allow e]"
    using lt5 by (simp add: lim bucket_Allow' live)
  have inT: "T - Minute < now_allow e"
    using assms(2) r(3) by simp
  have p1: "\<forall>(e, r) \<in> set rs. Method r = ''POST'' \<and> ClientIP r = ip \<and> t1 \<le> now_allow e \<and> now_allow e \<le> T"
    using Cons.prems(1) by simp
  have p2: "\<forall>b \<in> set (bucket (Limiter ?h) ?key). b \<le> t1 - Minute \<or> T - Minute < b"
    using inT by (auto simp: b')
  have fl: "filter (\<lambda>b. T - Minute < b) (bucket (Limiter ?h) ?key) = ?live @ [now_allow e]"
    using inT by (simp add: b')
  have p3: "length (filter (\<lambda>b. T - Minute < b) (bucket (Limiter ?h) ?key)) + length rs \<le> 5"
    using Cons.prems(3) by (simp add: fl)
  note IH = Cons.IH [OF p1 p2 p3]
  have step: "logins (er # rs) h = (fst (HandleLogin e r h) # fst (logins rs ?h), snd (logins rs ?h))"
    by (simp add: er split: prod.splits)
  have c1: "filter (\<lambda>b. T - Minute < b) (bucket (Limiter (snd (logins (er # rs) h))) ?key) =
              ?live @ map (\<lambda>(e, r). now_allow e) (er # rs)"
    unfolding step using IH by (simp add: fl er)
  have c2: "\<forall>b \<in> set (bucket (Limiter (snd (logins (er # rs) h))) ?key). b \<le> t1 - Minute \<or> T - Minute < b"
    unfolding step using IH by simp
  have c3: "PIN (snd (logins (er # rs) h)) = PIN h"
    unfolding step using IH by (simp add: pin)
  have c4: "fst (logins (er # rs) h) = replicate (length (er # rs))
                (Some \<lparr>status = 401,
                       body = Some \<lparr>Success = False, Message = ''Invalid PIN'',
                                    Authenticated = False, ExpiresAtStr = ''''\<rparr>,
                       cookie = None\<rparr>)"
    if w: "\<forall>(e, r) \<in> set (er # rs). \<exists>p. Body r = Some p \<and> p \<noteq> PIN h"
  proof -
    from w obtain p where p: "Body r = Some p" "p \<noteq> PIN h"
      by (auto simp: er)
    have "\<forall>(e, r) \<in> set rs. \<exists>p. Body r = Some p \<and> p \<noteq> PIN ?h"
      using w by (simp add: pin)
    with IH have "fst (logins rs ?h) = replicate (length rs)
                (Some \<lparr>status = 401,
                       body = Some \<lparr>Success = False, Message = ''Invalid PIN'',
                                    Authenticated = False, ExpiresAtStr = ''''\<rparr>,
                       cookie = None\<rparr>)"
      by (simp add: pin)
    then show ?thesis
      unfolding step using login_wrong_pin [OF r(1) ok p] by simp
  qed
  have c5: "\<forall>b \<in> set (bucket (Limiter (snd (logins (er # rs) h))) ?key). T - Minute < b"
  proof (cases "rs = []")
    case True
    then show ?thesis unfolding step using inT by (auto simp: b')
  next
    case False
    then show ?thesis unfolding step using IH by simp
  qed
  from c1 c2 c3 c4 c5 show ?case by blast
qed

text \<open>
  C7 as stated fails where the address has an attempt on record, and where the six
  requests take the whole minute. After a login that succeeds at second 0, of six
  requests with a wrong PIN at seconds 10 to 15 the first four are answered 401 and the
  fifth 429 already. And from a fresh limiter, with five wrong PINs at seconds 0 to 4, the
  sixth at second 60 exactly is answered 401: the stamp of second 0 is no longer after
  the cutoff.
\<close>

theorem login_bruteforce_counterexample:
  "map (map_option status) (fst (logins
      [S2_attempt 0 (Some ''274683''),
       S2_attempt 10 (Some ''000000''), S2_attempt 11 (Some ''000000''),
       S2_attempt 12 (Some ''000000''), S2_attempt 13 (Some ''000000''),
       S2_attempt 14 (Some ''000000''), S2_attempt 15 (Some ''000000'')] S2_service)) =
     [Some 200, Some 401, Some 401, Some 401, Some 401, Some 429, Some 429]
   \<and> (15 - 10) * 1000000000 < Minute
   \<and> map (map_option status) (fst (logins
      [S2_attempt 0 (Some ''000000''), S2_attempt 1 (Some ''000000''),
       S2_attempt 2 (Some ''000000''), S2_attempt 3 (Some ''000000''),
       S2_attempt 4 (Some ''000000''), S2_attempt 60 (Some ''000000'')] S2_service)) =
     [Some 401, Some 401, Some 401, Some 401, Some 401, Some 401]
   \<and> (60 - 0) * 1000000000 = Minute"
  by (simp add: S2_attempt_def S2_env_def S2_request_def S2_service_def NewRateLimiter_def
        HandleLogin_def Allow_def bucket_def Create_def Minute_def Let_def)

text \<open>
  C7, amended: the limiter is consulted before the body is read. When the address has no
  attempt on record within the minute before the first request, and six POST requests of
  that address are served at readings that lie within less than one minute, the first
  five carrying a wrong PIN, then the first five replies are 401 and the sixth is 429 with
  a body of \<open>success = false\<close> and a message, whatever the sixth request carries, the right
  PIN included.
\<close>

theorem login_bruteforce_cutoff:
  assumes "length rs = 5"
    and "\<forall>(e, r) \<in> set (rs @ [(e6, r6)]).
           Method r = ''POST'' \<and> ClientIP r = ip \<and> t1 \<le> now_allow e \<and> now_allow e \<le> T"
    and "T - t1 < Minute"
    and "\<forall>(e, r) \<in> set rs. \<exists>p. Body r = Some p \<and> p \<noteq> PIN h"
    and "\<forall>b \<in> set (bucket (Limiter h) (ip @ '':login'')). b \<le> t1 - Minute"
  shows "fst (logins (rs @ [(e6, r6)]) h) =
           replicate 5 (Some \<lparr>status = 401,
                               body = Some \<lparr>Success = False, Message = ''Invalid PIN'',
                                            Authenticated = False, ExpiresAtStr = ''''\<rparr>,
                               cookie = None\<rparr>)
           @ [Some \<lparr>status = 429,
                    body = Some \<lparr>Success = False, Message = ''Too many attempts'',
                                 Authenticated = False, ExpiresAtStr = ''''\<rparr>,
                    cookie = None\<rparr>]"
proof -
  let ?key = "ip @ '':login''"
  let ?h5 = "snd (logins rs h)"
  have a1: "\<forall>(e, r) \<in> set rs. Method r = ''POST'' \<and> ClientIP r = ip \<and> t1 \<le> now_allow e \<and> now_allow e \<le> T"
    using assms(2) by simp
  have r6: "Method r6 = ''POST''" "ClientIP r6 = ip" "t1 \<le> now_allow e6" "now_allow e6 \<le> T"
    using assms(2) by simp_all
  have a3: "\<forall>b \<in> set (bucket (Limiter h) ?key). b \<le> t1 - Minute \<or> T - Minute < b"
    using assms(5) by blast
  have "\<forall>b \<in> set (bucket (Limiter h) ?key). \<not> T - Minute < b"
    using assms(5) r6(3,4) by fastforce
  then have live0: "filter (\<lambda>b. T - Minute < b) (bucket (Limiter h) ?key) = []"
    by (simp add: filter_empty_conv)
  have a4: "length (filter (\<lambda>b. T - Minute < b) (bucket (Limiter h) ?key)) + length rs \<le> 5"
    by (simp add: live0 assms(1))
  note ch = logins_charge [OF a1 assms(3) a3 a4]
  have first5: "fst (logins rs h) = replicate 5 (Some \<lparr>status = 401,
                               body = Some \<lparr>Success = False, Message = ''Invalid PIN'',
                                            Authenticated = False, ExpiresAtStr = ''''\<rparr>,
                               cookie = None\<rparr>)"
    using ch assms(4) by (simp add: assms(1))
  have inv5: "\<forall>b \<in> set (bucket (Limiter ?h5) ?key). b \<le> t1 - Minute \<or> T - Minute < b"
    using ch by blast
  have live5: "length (filter (\<lambda>b. T - Minute < b) (bucket (Limiter ?h5) ?key)) = 5"
    using ch by (simp add: live0 assms(1))
  have "filter (\<lambda>b. now_allow e6 - Minute < b) (bucket (Limiter ?h5) ?key) =
          filter (\<lambda>b. T - Minute < b) (bucket (Limiter ?h5) ?key)"
    using inv5 r6(3,4) by (rule Allow_live)
  then have "\<not> fst (Allow (now_allow e6) (ClientIP r6 @ '':login'') 5 Minute (Limiter ?h5))"
    using live5 by (simp add: fst_Allow' r6(2))
  from login_denied [OF r6(1) this]
  have sixth: "fst (logins [(e6, r6)] ?h5) =
           [Some \<lparr>status = 429,
                    body = Some \<lparr>Success = False, Message = ''Too many attempts'',
                                 Authenticated = False, ExpiresAtStr = ''''\<rparr>,
                    cookie = None\<rparr>]"
    by (auto split: prod.splits)
  show ?thesis
    by (simp only: logins_append fst_conv first5 sixth)
qed

theorem login_bruteforce_cutoff_witness:
  "fst (logins (map (\<lambda>t. (S2_env t, S2_request (Some ''000000''))) [0, 1, 2, 3, 4]
                @ [(S2_env 5, S2_request (Some ''274683''))]) S2_service) =
           replicate 5 (Some \<lparr>status = 401,
                               body = Some \<lparr>Success = False, Message = ''Invalid PIN'',
                                            Authenticated = False, ExpiresAtStr = ''''\<rparr>,
                               cookie = None\<rparr>)
           @ [Some \<lparr>status = 429,
                    body = Some \<lparr>Success = False, Message = ''Too many attempts'',
                                 Authenticated = False, ExpiresAtStr = ''''\<rparr>,
                    cookie = None\<rparr>]"
  by (rule login_bruteforce_cutoff [where ?t1.0 = 0 and T = 5 and ip = "''10.0.0.1''"])
     (simp_all add: S2_env_def S2_request_def S2_service_def NewRateLimiter_def bucket_def Minute_def)

lemma login_admitted:
  assumes "Method r = ''POST''"
    and "map_option status (fst (HandleLogin env r h)) \<noteq> Some 429"
  shows "fst (Allow (now_allow env) (ClientIP r @ '':login'') 5 Minute (Limiter h))"
proof (rule ccontr)
  assume "\<not> fst (Allow (now_allow env) (ClientIP r @ '':login'') 5 Minute (Limiter h))"
  from login_denied [OF assms(1) this] assms(2) show False by simp
qed

lemma logins_admitted:
  assumes "\<forall>(e, r) \<in> set rs. Method r = ''POST'' \<and> ClientIP r = ip \<and> t1 \<le> now_allow e \<and> now_allow e \<le> T"
    and "T - t1 < Minute"
    and "\<forall>resp \<in> set (fst (logins rs h)). map_option status resp \<noteq> Some 429"
  shows "filter (\<lambda>b. T - Minute < b) (bucket (Limiter (snd (logins rs h))) (ip @ '':login'')) =
           filter (\<lambda>b. T - Minute < b) (bucket (Limiter h) (ip @ '':login'')) @ map (\<lambda>(e, r). now_allow e) rs"
  using assms(1,3)
proof (induction rs arbitrary: h)
  case Nil
  then show ?case by simp
next
  case (Cons er rs)
  obtain e r where er: "er = (e, r)" by (cases er)
  let ?key = "ip @ '':login''"
  let ?h = "snd (HandleLogin e r h)"
  have step: "logins (er # rs) h = (fst (HandleLogin e r h) # fst (logins rs ?h), snd (logins rs ?h))"
    by (simp add: er split: prod.splits)
  have r: "Method r = ''POST''" "ClientIP r = ip" "t1 \<le> now_allow e" "now_allow e \<le> T"
    using Cons.prems(1) by (simp_all add: er)
  have "map_option status (fst (HandleLogin e r h)) \<noteq> Some 429"
    using Cons.prems(2) unfolding step by simp
  with r(1) have ok: "fst (Allow (now_allow e) (ClientIP r @ '':login'') 5 Minute (Limiter h))"
    by (rule login_admitted)
  have lim: "Limiter ?h = snd (Allow (now_allow e) ?key 5 Minute (Limiter h))"
    using HandleLogin_limiter [OF r(1), of e h] by (simp add: r(2))
  have b': "bucket (Limiter ?h) ?key =
              filter (\<lambda>b. now_allow e - Minute < b) (bucket (Limiter h) ?key) @ [now_allow e]"
    using ok by (simp add: lim bucket_Allow' fst_Allow' r(2))
  have inT: "T - Minute < now_allow e"
    using assms(2) r(3) by simp
  have le: "now_allow e - Minute \<le> T - Minute"
    using r(4) by simp
  have fl: "filter (\<lambda>b. T - Minute < b) (bucket (Limiter ?h) ?key) =
              filter (\<lambda>b. T - Minute < b) (bucket (Limiter h) ?key) @ [now_allow e]"
    unfolding b' filter_append filter_filter_le [OF le] using inT by simp
  have p1: "\<forall>(e, r) \<in> set rs. Method r = ''POST'' \<and> ClientIP r = ip \<and> t1 \<le> now_allow e \<and> now_allow e \<le> T"
    using Cons.prems(1) by simp
  have p2: "\<forall>resp \<in> set (fst (logins rs ?h)). map_option status resp \<noteq> Some 429"
    using Cons.prems(2) unfolding step by simp
  from Cons.IH [OF p1 p2] show ?case
    unfolding step by (simp add: fl er)
qed

text \<open>
  C10 as stated fails where earlier attempts are on record: a request that is answered
  429 records nothing. After five attempts at seconds 0 to 4, the attempts at seconds 50
  to 54 are answered 429 and leave no stamp; by second 65 the five stamps have left the
  window, so of the six requests from second 50 to second 65 the sixth is answered 401.
\<close>

theorem login_budget_counterexample:
  "map (map_option status) (fst (logins
      [S2_attempt 0 (Some ''000000''), S2_attempt 1 (Some ''000000''),
       S2_attempt 2 (Some ''000000''), S2_attempt 3 (Some ''000000''),
       S2_attempt 4 (Some ''000000''),
       S2_attempt 50 (Some ''000000''), S2_attempt 51 (Some ''000000''),
       S2_attempt 52 (Some ''000000''), S2_attempt 53 (Some ''000000''),
       S2_attempt 54 (Some ''000000''), S2_attempt 65 (Some ''000000'')] S2_service)) =
     [Some 401, Some 401, Some 401, Some 401, Some 401,
      Some 429, Some 429, Some 429, Some 429, Some 429, Some 401]
   \<and> (65 - 50) * 1000000000 < Minute"
  by (simp add: S2_attempt_def S2_env_def S2_request_def S2_service_def NewRateLimiter_def
        HandleLogin_def Allow_def bucket_def Minute_def Let_def)

text \<open>
  C10, amended: every POST that the limiter admits records its reading in the bucket of
  \<open>ip:login\<close> before the body is looked at, whatever the request carries (the right PIN,
  a wrong PIN, a body that does not decode) and however it is answered then; a request
  answered 429 leaves the service as it was. So of six POST requests of one address served
  within less than one minute, when the first five are admitted (none answered 429, as
  with six logins that succeed in a row), the five readings are in the bucket and the
  sixth is answered 429.
\<close>

theorem login_charges_every_attempt:
  assumes "length rs = 5"
    and "\<forall>(e, r) \<in> set (rs @ [(e6, r6)]).
           Method r = ''POST'' \<and> ClientIP r = ip \<and> t1 \<le> now_allow e \<and> now_allow e \<le> T"
    and "T - t1 < Minute"
    and "\<forall>resp \<in> set (fst (logins rs h)). map_option status resp \<noteq> Some 429"
  shows "filter (\<lambda>b. T - Minute < b) (bucket (Limiter (snd (logins rs h))) (ip @ '':login'')) =
           filter (\<lambda>b. T - Minute < b) (bucket (Limiter h) (ip @ '':login''))
           @ map (\<lambda>(e, r). now_allow e) rs
         \<and> fst (logins (rs @ [(e6, r6)]) h) ! 5 =
             Some \<lparr>status = 429,
                   body = Some \<lparr>Success = False, Message = ''Too many attempts'',
                                Authenticated = False, ExpiresAtStr = ''''\<rparr>,
                   cookie = None\<rparr>
         \<and> snd (logins (rs @ [(e6, r6)]) h) = snd (logins rs h)"
proof -
  let ?key = "ip @ '':login''"
  let ?h5 = "snd (logins rs h)"
  have a1: "\<forall>(e, r) \<in> set rs. Method r = ''POST'' \<and> ClientIP r = ip \<and> t1 \<le> now_allow e \<and> now_allow e \<le> T"
    using assms(2) by simp
  have r6: "Method r6 = ''POST''" "ClientIP r6 = ip" "t1 \<le> now_allow e6" "now_allow e6 \<le> T"
    using assms(2) by simp_all
  note ch = logins_admitted [OF a1 assms(3,4)]
  have "5 \<le> length (filter (\<lambda>b. T - Minute < b) (bucket (Limiter ?h5) ?key))"
    by (simp add: ch assms(1))
  also have "filter (\<lambda>b. T - Minute < b) (bucket (Limiter ?h5) ?key) =
      filter (\<lambda>b. T - Minute < b) (filter (\<lambda>b. now_allow e6 - Minute < b) (bucket (Limiter ?h5) ?key))"
    using r6(4) by (simp only: filter_filter_le [of "now_allow e6 - Minute" "T - Minute"])
  also have "length \<dots> \<le> length (filter (\<lambda>b. now_allow e6 - Minute < b) (bucket (Limiter ?h5) ?key))"
    by (rule length_filter_le)
  finally have den: "\<not> fst (Allow (now_allow e6) (ClientIP r6 @ '':login'') 5 Minute (Limiter ?h5))"
    by (simp add: fst_Allow' r6(2))
  from login_denied [OF r6(1) den]
  have sixth: "fst (logins [(e6, r6)] ?h5) =
           [Some \<lparr>status = 429,
                    body = Some \<lparr>Success = False, Message = ''Too many attempts'',
                                 Authenticated = False, ExpiresAtStr = ''''\<rparr>,
                    cookie = None\<rparr>]"
    by (auto split: prod.splits)
  have "snd (Allow (now_allow e6) (ClientIP r6 @ '':login'') 5 Minute (Limiter ?h5)) = Limiter ?h5"
    using den by (simp add: Allow_def Let_def split: if_splits)
  then have "snd (HandleLogin e6 r6 ?h5) = ?h5"
    using r6(1) den
    by (cases "Allow (now_allow e6) (ClientIP r6 @ '':login'') 5 Minute (Limiter ?h5)")
       (simp add: HandleLogin_def Let_def split: bool.splits)
  then have unchanged: "snd (logins [(e6, r6)] ?h5) = ?h5"
    by (auto split: prod.splits)
  have len: "length (fst (logins rs h)) = 5"
    using assms(1) by (simp add: length_logins)
  have "fst (logins (rs @ [(e6, r6)]) h) ! 5 = fst (logins [(e6, r6)] ?h5) ! 0"
    by (simp only: logins_append fst_conv) (simp add: nth_append len)
  moreover have "snd (logins (rs @ [(e6, r6)]) h) = snd (logins [(e6, r6)] ?h5)"
    by (simp only: logins_append snd_conv)
  ultimately show ?thesis
    using ch sixth unchanged by simp
qed

theorem login_charges_every_attempt_witness:
  "fst (logins
       ([S2_attempt 0 (Some ''274683''), S2_attempt 1 None, S2_attempt 2 (Some ''000000''),
         S2_attempt 3 (Some ''274683''), S2_attempt 4 None]
        @ [S2_attempt 5 (Some ''274683'')]) S2_service) ! 5 =
       Some \<lparr>status = 429,
             body = Some \<lparr>Success = False, Message = ''Too many attempts'',
                          Authenticated = False, ExpiresAtStr = ''''\<rparr>,
             cookie = None\<rparr>
   \<and> map (map_option status) (fst (logins
        [S2_attempt 0 (Some ''274683''), S2_attempt 1 None, S2_attempt 2 (Some ''000000''),
         S2_attempt 3 (Some ''274683''), S2_attempt 4 None] S2_service)) =
       [Some 200, Some 400, Some 401, Some 200, Some 400]"
proof -
  have st: "map (map_option status) (fst (logins
        [S2_attempt 0 (Some ''274683''), S2_attempt 1 None, S2_attempt 2 (Some ''000000''),
         S2_attempt 3 (Some ''274683''), S2_attempt 4 None] S2_service)) =
       [Some 200, Some 400, Some 401, Some 200, Some 400]"
    by (simp add: S2_attempt_def S2_env_def S2_request_def S2_service_def NewRateLimiter_def
        HandleLogin_def Allow_def bucket_def Create_def Minute_def Let_def)
  have adm: "\<forall>resp \<in> set (fst (logins
        [S2_attempt 0 (Some ''274683''), S2_attempt 1 None, S2_attempt 2 (Some ''000000''),
         S2_attempt 3 (Some ''274683''), S2_attempt 4 None] S2_service)).
        map_option status resp \<noteq> Some 429"
  proof
    fix resp
    assume "resp \<in> set (fst (logins
        [S2_attempt 0 (Some ''274683''), S2_attempt 1 None, S2_attempt 2 (Some ''000000''),
         S2_attempt 3 (Some ''274683''), S2_attempt 4 None] S2_service))"
    then have "map_option status resp \<in> set (map (map_option status) (fst (logins
        [S2_attempt 0 (Some ''274683''), S2_attempt 1 None, S2_attempt 2 (Some ''000000''),
         S2_attempt 3 (Some ''274683''), S2_attempt 4 None] S2_service)))"
      by (simp only: set_map) (rule imageI)
    then show "map_option status resp \<noteq> Some 429"
      unfolding st by auto
  qed
  have "fst (logins
       ([S2_attempt 0 (Some ''274683''), S2_attempt 1 None, S2_attempt 2 (Some ''000000''),
         S2_attempt 3 (Some ''274683''), S2_attempt 4 None]
        @ [S2_attempt 5 (Some ''274683'')]) S2_service) ! 5 =
       Some \<lparr>status = 429,
             body = Some \<lparr>Success = False, Message = ''Too many attempts'',
                          Authenticated = False, ExpiresAtStr = ''''\<rparr>,
             cookie = None\<rparr>"
    unfolding S2_attempt_def [of 5]
    using login_charges_every_attempt [where rs = "[S2_attempt 0 (Some ''274683''), S2_attempt 1 None,
         S2_attempt 2 (Some ''000000''), S2_attempt 3 (Some ''274683''), S2_attempt 4 None]"
        and ?e6.0 = "S2_env (5 * 1000000000)" and ?r6.0 = "S2_request (Some ''274683'')"
        and ?t1.0 = 0 and T = 5000000000 and ip = "''10.0.0.1''" and h = S2_service, OF _ _ _ adm]
    by (simp add: S2_attempt_def S2_env_def S2_request_def Minute_def)
  with st show ?thesis by simp
qed

section \<open>Properties of the versioned stores\<close>

lemma replaceAll_loop_single:
  "i \<le> length s \<Longrightarrow>
   replaceAll_loop i s [c] [d] = Some (take i s @ map (\<lambda>x. if x = c then d else x) (drop i s))"
proof (induction "length s - i" arbitrary: i s)
  case 0
  then have "i = length s" by simp
  then show ?case by (subst replaceAll_loop.simps) simp
next
  case (Suc n)
  then have lt: "i < length s" by simp
  have dr: "drop i s = s ! i # drop (Suc i) s"
    using lt by (simp add: Cons_nth_drop_Suc)
  show ?case
  proof (cases "s ! i = c")
    case True
    let ?s = "take i s @ [d] @ drop (i + 1) s"
    have len: "length ?s = length s" using lt by simp
    have "n = length ?s - (i + 1)" using Suc.hyps(2) len by simp
    moreover have "i + 1 \<le> length ?s" using lt len by simp
    ultimately have IH: "replaceAll_loop (i + 1) ?s [c] [d] =
        Some (take (i + 1) ?s @ map (\<lambda>x. if x = c then d else x) (drop (i + 1) ?s))"
      by (rule Suc.hyps(1))
    have t: "take (i + 1) ?s = take i s @ [d]" using lt by simp
    have d: "drop (i + 1) ?s = drop (i + 1) s" using lt by simp
    have "replaceAll_loop i s [c] [d] = replaceAll_loop (i + 1) ?s [c] [d]"
      using lt True by (subst replaceAll_loop.simps) (simp add: dr)
    then show ?thesis
      using True by (simp only: IH t d) (simp add: dr)
  next
    case False
    have "n = length s - (i + 1)" using Suc.hyps(2) by simp
    moreover have "i + 1 \<le> length s" using lt by simp
    ultimately have IH: "replaceAll_loop (i + 1) s [c] [d] =
        Some (take (i + 1) s @ map (\<lambda>x. if x = c then d else x) (drop (i + 1) s))"
      by (rule Suc.hyps(1))
    have "replaceAll_loop i s [c] [d] = replaceAll_loop (i + 1) s [c] [d]"
      using lt False by (subst replaceAll_loop.simps) (simp add: dr)
    then show ?thesis
      using False lt by (simp only: IH) (simp add: dr take_Suc_conv_app_nth)
  qed
qed

lemma replaceAll_single:
  "replaceAll s [c] [d] = Some (map (\<lambda>x. if x = c then d else x) s)"
  by (simp add: replaceAll_def replaceAll_loop_single)

lemma sanitizeFilename_total:
  "sanitizeFilename name =
     Some (map (\<lambda>x. if x \<in> {CHR ''/'', CHR 0x5C, CHR '':'', CHR ''*'', CHR ''?'', CHR 0x22,
                               CHR ''<'', CHR ''>'', CHR ''|'', CHR '' ''} then CHR ''_'' else x) name)"
  by (simp add: sanitizeFilename_def invalid_def replaceAll_single)

lemma S6_first:
  "ScoutStore_ArchiveMatch S6_env (S6_store S6_doc) Map.empty = Some (None, S6_store S6_fresh, S6_disk)"
  by (simp add: ScoutStore_ArchiveMatch_def sanitizeFilename_total S6_env_def S6_doc_def
        S6_fresh_def S6_store_def S6_disk_def ScoutStore_save_def Let_def)

text \<open>
  C9: archiving a store whose document has an empty match name, or that holds no
  document, writes no file, leaves the store as it was and returns no error; and after
  an archive that returned no error, a second archive is such a call.
\<close>

theorem archive_empty_noop:
  "((state s = None \<or> (\<exists>st. state s = Some st \<and> MatchName st = ''''))
      \<longrightarrow> ScoutStore_ArchiveMatch env s disk = Some (None, s, disk))
   \<and> (ScoutStore_ArchiveMatch env s disk = Some (None, s1, disk1)
      \<longrightarrow> ScoutStore_ArchiveMatch env' s1 disk1 = Some (None, s1, disk1))"
proof (intro conjI impI)
  assume "state s = None \<or> (\<exists>st. state s = Some st \<and> MatchName st = '''')"
  then show "ScoutStore_ArchiveMatch env s disk = Some (None, s, disk)"
    by (auto simp: ScoutStore_ArchiveMatch_def)
next
  assume a: "ScoutStore_ArchiveMatch env s disk = Some (None, s1, disk1)"
  have "state s1 = None \<or> (\<exists>st. state s1 = Some st \<and> MatchName st = '''')"
    using a
    by (auto simp: ScoutStore_ArchiveMatch_def ScoutStore_save_def Let_def
             split: option.splits if_splits)
  then show "ScoutStore_ArchiveMatch env' s1 disk1 = Some (None, s1, disk1)"
    by (auto simp: ScoutStore_ArchiveMatch_def)
qed

theorem archive_empty_noop_witness:
  "ScoutStore_ArchiveMatch S6_env (S6_store S6_fresh) S6_disk = Some (None, S6_store S6_fresh, S6_disk)
   \<and> ScoutStore_ArchiveMatch S6_env (S6_store S6_doc) Map.empty = Some (None, S6_store S6_fresh, S6_disk)"
  using archive_empty_noop [of "S6_store S6_doc" S6_env Map.empty "S6_store S6_fresh" S6_disk S6_env]
    S6_first by simp

lemma sint_succ64:
  fixes v :: int64
  assumes "sint v < 9223372036854775807"
  shows "sint (v + 1) = sint v + 1"
proof -
  have lo: "- (2 ^ 63) \<le> sint v"
    using sint_ge [of v] by simp
  have "sint (v + 1) = signed_take_bit 63 (sint v + 1)"
    by (simp add: sint_word_ariths)
  also have "\<dots> = sint v + 1"
    using lo assms by (intro signed_take_bit_int_eq_self) simp_all
  finally show ?thesis .
qed

lemma sint_add_n64:
  fixes v :: int64
  assumes "sint v + int n \<le> 9223372036854775807"
  shows "sint (v + of_nat n) = sint v + int n"
  using assms
proof (induction n)
  case 0
  show ?case by simp
next
  case (Suc n)
  then have IH: "sint (v + of_nat n) = sint v + int n" by simp
  have "sint (v + of_nat n) < 9223372036854775807"
    using Suc.prems IH by simp
  then have "sint ((v + of_nat n) + 1) = sint (v + of_nat n) + 1"
    by (rule sint_succ64)
  then show ?case by (simp add: IH ac_simps)
qed

lemma Scout_update_state:
  "ScoutStore_UpdateState env d s disk = Some (err, s', disk') \<Longrightarrow> state s = Some old \<Longrightarrow>
   state s' = Some (d\<lparr>Version := Version old + 1, LastUpdated := stamp env\<rparr>)
   \<and> (err = None \<longrightarrow> disk' (currentFile s) = Some (state s'))"
  by (auto simp: ScoutStore_UpdateState_def ScoutStore_save_def Let_def split: if_splits)

lemma Matchday_update_state:
  "MatchdayStore_UpdateState env d s disk = Some (err, s', disk') \<Longrightarrow>
   MatchdayStore.state s = Some old \<Longrightarrow>
   MatchdayStore.state s' =
     Some (d\<lparr>MatchdayState.Version := MatchdayState.Version old + 1,
             MatchdayState.LastUpdated := stamp env\<rparr>)
   \<and> (err = None \<longrightarrow> disk' (MatchdayStore.currentFile s) = Some (MatchdayStore.state s'))"
  by (auto simp: MatchdayStore_UpdateState_def MatchdayStore_save_def Let_def split: if_splits)

lemma Scout_updates_version:
  "ScoutStore_updates ds s disk = Some (errs, s', disk') \<Longrightarrow> state s = Some old \<Longrightarrow>
   \<exists>new. state s' = Some new \<and> Version new = Version old + of_nat (length ds)"
proof (induction ds arbitrary: s disk errs old)
  case Nil
  then show ?case by simp
next
  case (Cons ed ds)
  obtain env d where ed: "ed = (env, d)" by (cases ed)
  from Cons.prems(1) obtain err s1 disk1 errs1
    where u: "ScoutStore_UpdateState env d s disk = Some (err, s1, disk1)"
      and r: "ScoutStore_updates ds s1 disk1 = Some (errs1, s', disk')"
    by (auto simp: ed split: option.splits)
  from Scout_update_state [OF u Cons.prems(2)]
  have s1: "state s1 = Some (d\<lparr>Version := Version old + 1, LastUpdated := stamp env\<rparr>)"
    by simp
  from Cons.IH [OF r s1] show ?case
    by (auto simp: add.assoc)
qed

lemma Matchday_updates_version:
  "MatchdayStore_updates ds s disk = Some (errs, s', disk') \<Longrightarrow>
   MatchdayStore.state s = Some old \<Longrightarrow>
   \<exists>new. MatchdayStore.state s' = Some new
      \<and> MatchdayState.Version new = MatchdayState.Version old + of_nat (length ds)"
proof (induction ds arbitrary: s disk errs old)
  case Nil
  then show ?case by simp
next
  case (Cons ed ds)
  obtain env d where ed: "ed = (env, d)" by (cases ed)
  from Cons.prems(1) obtain err s1 disk1 errs1
    where u: "MatchdayStore_UpdateState env d s disk = Some (err, s1, disk1)"
      and r: "MatchdayStore_updates ds s1 disk1 = Some (errs1, s', disk')"
    by (auto simp: ed split: option.splits)
  from Matchday_update_state [OF u Cons.prems(2)]
  have s1: "MatchdayStore.state s1 =
     Some (d\<lparr>MatchdayState.Version := MatchdayState.Version old + 1,
             MatchdayState.LastUpdated := stamp env\<rparr>)"
    by simp
  from Cons.IH [OF r s1] show ?case
    by (auto simp: add.assoc)
qed

text \<open>
  C3 as stated fails where the stored version is the largest \<open>int64\<close>: the sum wraps
  around, and the update that succeeds stores the smallest \<open>int64\<close>.
\<close>

theorem update_version_counterexample:
  "map_option fst (ScoutStore_UpdateState S6_env S6_doc S3_store Map.empty) = Some None
   \<and> sint (ScoutStore_GetVersion S3_store) = 9223372036854775807
   \<and> map_option (sint \<circ> ScoutStore_GetVersion \<circ> fst \<circ> snd)
        (ScoutStore_UpdateState S6_env S6_doc S3_store Map.empty) = Some (- 9223372036854775808)"
  by (simp add: ScoutStore_UpdateState_def ScoutStore_save_def ScoutStore_GetVersion_def
        S3_store_def S6_store_def S6_doc_def S6_env_def Let_def)

text \<open>
  C3, amended: in both stores a successful update with a document \<open>d\<close> of the caller
  stores, writes to disk and returns \<open>d\<close> with the version set to the stored version plus
  1 in \<open>int64\<close> arithmetic, whatever version \<open>d\<close> carried, and \<open>last_updated\<close> set to the
  clock reading; as numbers the version grows by exactly 1 while the stored version is
  below \<open>2^63 - 1\<close>, and over a run of \<open>n\<close> updates by exactly \<open>n\<close> while that stays
  within \<open>int64\<close>.
\<close>

theorem update_stamps_next_version:
  "(state s = Some old \<and> ScoutStore_UpdateState env d s disk = Some (None, s', disk') \<longrightarrow>
      ScoutStore_GetState env2 s' = d\<lparr>Version := Version old + 1, LastUpdated := stamp env\<rparr>
      \<and> disk' (currentFile s) = Some (Some (ScoutStore_GetState env2 s'))
      \<and> (sint (Version old) < 9223372036854775807 \<longrightarrow>
           sint (Version (ScoutStore_GetState env2 s')) = sint (Version old) + 1))
   \<and> (MatchdayStore.state m = Some mold
        \<and> MatchdayStore_UpdateState env md m mdisk = Some (None, m', mdisk') \<longrightarrow>
      MatchdayStore_GetState m' =
        md\<lparr>MatchdayState.Version := MatchdayState.Version mold + 1,
           MatchdayState.LastUpdated := stamp env\<rparr>
      \<and> mdisk' (MatchdayStore.currentFile m) = Some (Some (MatchdayStore_GetState m'))
      \<and> (sint (MatchdayState.Version mold) < 9223372036854775807 \<longrightarrow>
           sint (MatchdayState.Version (MatchdayStore_GetState m')) =
             sint (MatchdayState.Version mold) + 1))
   \<and> (state s = Some old \<and> ScoutStore_updates ds s disk = Some (errs, s'', disk'')
        \<and> sint (Version old) + int (length ds) \<le> 9223372036854775807 \<longrightarrow>
      sint (ScoutStore_GetVersion s'') = sint (Version old) + int (length ds))
   \<and> (MatchdayStore.state m = Some mold
        \<and> MatchdayStore_updates mds m mdisk = Some (merrs, m'', mdisk'')
        \<and> sint (MatchdayState.Version mold) + int (length mds) \<le> 9223372036854775807 \<longrightarrow>
      sint (MatchdayState.Version (MatchdayStore_GetState m'')) =
        sint (MatchdayState.Version mold) + int (length mds))"
proof (intro conjI impI; (elim conjE)?)
  assume a: "state s = Some old" "ScoutStore_UpdateState env d s disk = Some (None, s', disk')"
  from Scout_update_state [OF a(2,1)]
  have st: "state s' = Some (d\<lparr>Version := Version old + 1, LastUpdated := stamp env\<rparr>)"
    and dk: "disk' (currentFile s) = Some (state s')"
    by simp_all
  show g: "ScoutStore_GetState env2 s' = d\<lparr>Version := Version old + 1, LastUpdated := stamp env\<rparr>"
    by (simp add: ScoutStore_GetState_def st)
  show "disk' (currentFile s) = Some (Some (ScoutStore_GetState env2 s'))"
    by (simp add: dk g st)
  assume "sint (Version old) < 9223372036854775807"
  then show "sint (Version (ScoutStore_GetState env2 s')) = sint (Version old) + 1"
    by (simp add: g sint_succ64)
next
  assume a: "MatchdayStore.state m = Some mold"
    "MatchdayStore_UpdateState env md m mdisk = Some (None, m', mdisk')"
  from Matchday_update_state [OF a(2,1)]
  have st: "MatchdayStore.state m' =
      Some (md\<lparr>MatchdayState.Version := MatchdayState.Version mold + 1,
               MatchdayState.LastUpdated := stamp env\<rparr>)"
    and dk: "mdisk' (MatchdayStore.currentFile m) = Some (MatchdayStore.state m')"
    by simp_all
  show g: "MatchdayStore_GetState m' =
        md\<lparr>MatchdayState.Version := MatchdayState.Version mold + 1,
           MatchdayState.LastUpdated := stamp env\<rparr>"
    by (simp add: MatchdayStore_GetState_def st)
  show "mdisk' (MatchdayStore.currentFile m) = Some (Some (MatchdayStore_GetState m'))"
    by (simp add: dk g st)
  assume "sint (MatchdayState.Version mold) < 9223372036854775807"
  then show "sint (MatchdayState.Version (MatchdayStore_GetState m')) =
             sint (MatchdayState.Version mold) + 1"
    by (simp add: g sint_succ64)
next
  assume a: "state s = Some old" "ScoutStore_updates ds s disk = Some (errs, s'', disk'')"
    "sint (Version old) + int (length ds) \<le> 9223372036854775807"
  from Scout_updates_version [OF a(2,1)] obtain new
    where "state s'' = Some new" "Version new = Version old + of_nat (length ds)"
    by blast
  then show "sint (ScoutStore_GetVersion s'') = sint (Version old) + int (length ds)"
    using sint_add_n64 [OF a(3)] by (simp add: ScoutStore_GetVersion_def)
next
  assume a: "MatchdayStore.state m = Some mold"
    "MatchdayStore_updates mds m mdisk = Some (merrs, m'', mdisk'')"
    "sint (MatchdayState.Version mold) + int (length mds) \<le> 9223372036854775807"
  from Matchday_updates_version [OF a(2,1)] obtain new
    where "MatchdayStore.state m'' = Some new"
      "MatchdayState.Version new = MatchdayState.Version mold + of_nat (length mds)"
    by blast
  then show "sint (MatchdayState.Version (MatchdayStore_GetState m'')) =
        sint (MatchdayState.Version mold) + int (length mds)"
    using sint_add_n64 [OF a(3)] by (simp add: MatchdayStore_GetState_def)
qed

theorem update_stamps_next_version_witness:
  "sint (Version (ScoutStore_GetState S6_env
       (S6_store (S3_caller\<lparr>Version := 8, LastUpdated := stamp S6_env\<rparr>)))) = 8
   \<and> sint (MatchdayState.Version (MatchdayStore_GetState
       (S3_matchday_store (S3_matchday\<lparr>MatchdayState.Version := 42,
                                         MatchdayState.LastUpdated := stamp S6_env\<rparr>)))) = 42
   \<and> sint (ScoutStore_GetVersion
       (S6_store (S6_doc\<lparr>Version := 9, LastUpdated := stamp S6_env\<rparr>))) = 9
   \<and> ScoutStore_UpdateState S6_env S3_caller (S6_store S6_doc) Map.empty =
       Some (None, S6_store (S3_caller\<lparr>Version := 8, LastUpdated := stamp S6_env\<rparr>),
             [[''data'', ''scout-current.json''] \<mapsto>
                Some (S3_caller\<lparr>Version := 8, LastUpdated := stamp S6_env\<rparr>)])
   \<and> MatchdayStore_UpdateState S6_env S3_matchday (S3_matchday_store S3_matchday) Map.empty =
       Some (None, S3_matchday_store (S3_matchday\<lparr>MatchdayState.Version := 42,
                                         MatchdayState.LastUpdated := stamp S6_env\<rparr>),
             [[''data'', ''matchday-current.json''] \<mapsto>
                Some (S3_matchday\<lparr>MatchdayState.Version := 42,
                                         MatchdayState.LastUpdated := stamp S6_env\<rparr>)])"
  using update_stamps_next_version [where s = "S6_store S6_doc" and old = S6_doc and env = S6_env
      and d = S3_caller and disk = Map.empty
      and s' = "S6_store (S3_caller\<lparr>Version := 8, LastUpdated := stamp S6_env\<rparr>)"
      and disk' = "[[''data'', ''scout-current.json''] \<mapsto>
                Some (S3_caller\<lparr>Version := 8, LastUpdated := stamp S6_env\<rparr>)]"
      and ?env2.0 = S6_env
      and m = "S3_matchday_store S3_matchday" and mold = S3_matchday and md = S3_matchday
      and mdisk = Map.empty
      and m' = "S3_matchday_store (S3_matchday\<lparr>MatchdayState.Version := 42,
                                         MatchdayState.LastUpdated := stamp S6_env\<rparr>)"
      and mdisk' = "[[''data'', ''matchday-current.json''] \<mapsto>
                Some (S3_matchday\<lparr>MatchdayState.Version := 42,
                                         MatchdayState.LastUpdated := stamp S6_env\<rparr>)]"
      and ds = "[(S6_env, S3_caller), (S6_env, S6_doc)]" and errs = "[None, None]"
      and s'' = "S6_store (S6_doc\<lparr>Version := 9, LastUpdated := stamp S6_env\<rparr>)"
      and disk'' = "[[''data'', ''scout-current.json''] \<mapsto>
                Some (S6_doc\<lparr>Version := 9, LastUpdated := stamp S6_env\<rparr>)]"
      and mds = "[]" and merrs = "[]" and m'' = "S3_matchday_store S3_matchday"
      and mdisk'' = Map.empty]
  by (simp add: ScoutStore_UpdateState_def ScoutStore_save_def ScoutStore_GetVersion_def
        ScoutStore_GetState_def MatchdayStore_UpdateState_def MatchdayStore_save_def
        MatchdayStore_GetState_def S3_caller_def S3_matchday_def S3_matchday_store_def
        S6_store_def S6_doc_def S6_env_def Let_def)

section \<open>Properties of the bot filter\<close>

lemma first_match_iff:
  "first_match patterns userAgent \<longleftrightarrow> (\<exists>p \<in> set patterns. MatchString p userAgent)"
  by (induction patterns) auto

lemma isBot_iff:
  "isBot userAgent \<longleftrightarrow>
     userAgent \<noteq> '''' \<and> (\<exists>p \<in> set main_botPatterns. MatchString p userAgent)"
  by (simp add: isBot_def first_match_iff)

lemma IsBot_iff:
  "IsBot userAgent \<longleftrightarrow>
     userAgent \<noteq> '''' \<and> (\<exists>p \<in> set botPatterns. MatchString p userAgent)"
  by (simp add: IsBot_def first_match_iff)

lemma IsBot_imp_isBot: "IsBot userAgent \<Longrightarrow> isBot userAgent"
  by (auto simp: IsBot_iff isBot_iff botPatterns_def main_botPatterns_def)

text \<open>
  C6: the filter of package \<open>services\<close> tests six of the ten tokens. A user agent that
  holds one of \<open>python-requests\<close>, \<open>headless\<close>, \<open>phantom\<close>, \<open>selenium\<close> and none of
  the six passes it, while the filter of package \<open>main\<close>, with all ten, rejects it.
\<close>

theorem bot_filter_tokens:
  "IsBot ''python-requests/2.31.0'' = False
   \<and> IsBot ''HeadlessChrome/120.0'' = False
   \<and> IsBot ''PhantomJS/2.1.1'' = False
   \<and> IsBot ''selenium/4.0'' = False
   \<and> isBot ''python-requests/2.31.0'' = True
   \<and> isBot ''HeadlessChrome/120.0'' = True
   \<and> isBot ''PhantomJS/2.1.1'' = True
   \<and> isBot ''selenium/4.0'' = True"
  by (simp add: IsBot_def isBot_def botPatterns_def main_botPatterns_def fold_match_def)

section \<open>Properties of the hub\<close>

lemma send_each_open:
  assumes "distinct (map Send cs)"
    and "\<forall>c \<in> set cs. \<exists>ch. h (Send c) = Some ch \<and> \<not> closed ch"
  shows "\<exists>h'. send_each cs msg h = Inr h'
          \<and> (\<forall>c \<in> set cs. \<forall>ch. h (Send c) = Some ch \<longrightarrow>
                h' (Send c) = Some (if length (buf ch) < 256 then ch\<lparr>buf := buf ch @ [msg]\<rparr> else ch))
          \<and> (\<forall>a. a \<notin> Send ` set cs \<longrightarrow> h' a = h a)"
  using assms
proof (induction cs arbitrary: h)
  case Nil
  then show ?case by simp
next
  case (Cons c cs)
  from Cons.prems(2) obtain ch where ch: "h (Send c) = Some ch" "\<not> closed ch"
    by auto
  let ?h1 = "if length (buf ch) < 256 then h(Send c \<mapsto> ch\<lparr>buf := buf ch @ [msg]\<rparr>) else h"
  have ts: "try_send (Send c) msg h = Inr ?h1"
    using ch by (simp add: try_send_def)
  have notin: "Send c \<notin> Send ` set cs"
    using Cons.prems(1) by auto
  have same: "\<forall>c' \<in> set cs. ?h1 (Send c') = h (Send c')"
    using notin by (auto simp: image_iff)
  have d: "distinct (map Send cs)"
    using Cons.prems(1) by simp
  have o: "\<forall>c' \<in> set cs. \<exists>ch. ?h1 (Send c') = Some ch \<and> \<not> closed ch"
    using Cons.prems(2) same by simp
  from Cons.IH [OF d o] obtain h' where h':
    "send_each cs msg ?h1 = Inr h'"
    "\<forall>c' \<in> set cs. \<forall>ch. ?h1 (Send c') = Some ch \<longrightarrow>
        h' (Send c') = Some (if length (buf ch) < 256 then ch\<lparr>buf := buf ch @ [msg]\<rparr> else ch)"
    "\<forall>a. a \<notin> Send ` set cs \<longrightarrow> h' a = ?h1 a"
    by blast
  have r: "send_each (c # cs) msg h = Inr h'"
    by (simp only: send_each.simps ts sum.case h'(1))
  have hc: "h' (Send c) = ?h1 (Send c)"
    using h'(3) notin by blast
  have p1: "\<forall>c' \<in> set (c # cs). \<forall>ch. h (Send c') = Some ch \<longrightarrow>
        h' (Send c') = Some (if length (buf ch) < 256 then ch\<lparr>buf := buf ch @ [msg]\<rparr> else ch)"
  proof (intro ballI allI impI)
    fix c' ch' assume c': "c' \<in> set (c # cs)" and e: "h (Send c') = Some ch'"
    show "h' (Send c') = Some (if length (buf ch') < 256 then ch'\<lparr>buf := buf ch' @ [msg]\<rparr> else ch')"
    proof (cases "Send c' = Send c")
      case True
      then have "ch' = ch" using e ch(1) by simp
      then show ?thesis using True hc ch(1) by simp
    next
      case False
      then have in_cs: "c' \<in> set cs" using c' by auto
      then have "?h1 (Send c') = Some ch'" using same e by simp
      then show ?thesis using h'(2) in_cs by blast
    qed
  qed
  have p2: "\<forall>a. a \<notin> Send ` set (c # cs) \<longrightarrow> h' a = h a"
    using h'(3) by auto
  from r p1 p2 show ?case by blast
qed

lemma send_each_pairs:
  assumes "distinct (map (Send \<circ> snd) kcs)"
    and "\<forall>(k, c) \<in> set kcs. \<exists>ch. h (Send c) = Some ch \<and> \<not> closed ch"
  shows "\<exists>h'. send_each (map snd kcs) msg h = Inr h'
          \<and> (\<forall>(k, c) \<in> set kcs. \<forall>ch. h (Send c) = Some ch \<longrightarrow>
                h' (Send c) = Some (if length (buf ch) < 256 then ch\<lparr>buf := buf ch @ [msg]\<rparr> else ch))
          \<and> (\<forall>a. a \<notin> (Send \<circ> snd) ` set kcs \<longrightarrow> h' a = h a)"
proof -
  have d: "distinct (map Send (map snd kcs))"
    using assms(1) by simp
  have o: "\<forall>c \<in> set (map snd kcs). \<exists>ch. h (Send c) = Some ch \<and> \<not> closed ch"
    using assms(2) by auto
  from send_each_open [OF d o, of msg] obtain h' where h':
    "send_each (map snd kcs) msg h = Inr h'"
    "\<forall>c \<in> set (map snd kcs). \<forall>ch. h (Send c) = Some ch \<longrightarrow>
        h' (Send c) = Some (if length (buf ch) < 256 then ch\<lparr>buf := buf ch @ [msg]\<rparr> else ch)"
    "\<forall>a. a \<notin> Send ` set (map snd kcs) \<longrightarrow> h' a = h a"
    by blast
  have p1: "\<forall>(k, c) \<in> set kcs. \<forall>ch. h (Send c) = Some ch \<longrightarrow>
                h' (Send c) = Some (if length (buf ch) < 256 then ch\<lparr>buf := buf ch @ [msg]\<rparr> else ch)"
    using h'(2) by force
  have p2: "\<forall>a. a \<notin> (Send \<circ> snd) ` set kcs \<longrightarrow> h' a = h a"
    using h'(3) by (simp add: image_comp)
  from h'(1) p1 p2 show ?thesis by blast
qed

text \<open>
  Every round keeps \<open>hub_inv\<close>, so in no state that the hub reaches from \<open>NewRelay\<close> over
  admissible events does a send or a close panic.
\<close>

lemma update_fresh:
  "k \<notin> fst ` set al \<Longrightarrow> AList.update k v al = al @ [(k, v)]"
  by (induction al) auto

lemma send_each_keeps_open:
  assumes "distinct (map (Send \<circ> snd) kcs)"
    and "\<forall>(k, c) \<in> set kcs. \<exists>ch. h (Send c) = Some ch \<and> \<not> closed ch"
  shows "\<exists>h'. send_each (map snd kcs) msg h = Inr h'
            \<and> (\<forall>a ch. h a = Some ch \<and> \<not> closed ch \<longrightarrow> (\<exists>ch'. h' a = Some ch' \<and> \<not> closed ch'))"
proof -
  from send_each_pairs [OF assms, of msg] obtain h' where h':
    "send_each (map snd kcs) msg h = Inr h'"
    "\<forall>(k, c) \<in> set kcs. \<forall>ch. h (Send c) = Some ch \<longrightarrow>
        h' (Send c) = Some (if length (buf ch) < 256 then ch\<lparr>buf := buf ch @ [msg]\<rparr> else ch)"
    "\<forall>a. a \<notin> (Send \<circ> snd) ` set kcs \<longrightarrow> h' a = h a"
    by blast
  have "\<exists>ch'. h' a = Some ch' \<and> \<not> closed ch'" if a: "h a = Some ch" "\<not> closed ch" for a ch
  proof (cases "a \<in> (Send \<circ> snd) ` set kcs")
    case True
    then obtain k c where kc: "(k, c) \<in> set kcs" "a = Send c" by auto
    with h'(2) a(1) have "h' a = Some (if length (buf ch) < 256 then ch\<lparr>buf := buf ch @ [msg]\<rparr> else ch)"
      by blast
    with a(2) show ?thesis by simp
  next
    case False
    with h'(3) a show ?thesis by simp
  qed
  with h'(1) show ?thesis by blast
qed

lemma browsers_sends_distinct:
  assumes "hub_inv r h"
  shows "distinct (map (Send \<circ> snd) (browsers r))"
proof -
  have inj: "inj_on (Send \<circ> snd) (set (clients r))"
    using assms by (simp add: hub_inv_def distinct_map)
  have "distinct (map fst (browsers r))"
    using assms by (simp add: hub_inv_def)
  then have "distinct (browsers r)"
    by (simp add: distinct_map)
  moreover have "inj_on (Send \<circ> snd) (set (browsers r))"
    using inj assms by (auto simp: hub_inv_def intro: inj_on_subset)
  ultimately show ?thesis
    by (simp add: distinct_map)
qed

lemma browsers_open:
  assumes "hub_inv r h"
  shows "\<forall>(k, b) \<in> set (browsers r). \<exists>ch. h (Send b) = Some ch \<and> \<not> closed ch"
  using assms by (auto simp: hub_inv_def)

lemma Run_step_inv:
  assumes inv: "hub_inv r h" and adm: "admissible ev r h"
  shows "\<exists>r' h'. Run_step ev r h = Inr (r', h') \<and> hub_inv r' h'"
proof (cases ev)
  case (Broadcast message)
  have d: "distinct (map (Send \<circ> snd) (clients r))"
    and o: "\<forall>(k, c) \<in> set (clients r). \<exists>ch. h (Send c) = Some ch \<and> \<not> closed ch"
    using inv by (simp_all add: hub_inv_def)
  from send_each_keeps_open [OF d o, of message] obtain h' where h':
    "send_each (map snd (clients r)) message h = Inr h'"
    "\<forall>a ch. h a = Some ch \<and> \<not> closed ch \<longrightarrow> (\<exists>ch'. h' a = Some ch' \<and> \<not> closed ch')"
    by blast
  have "hub_inv r h'"
    using inv h'(2) unfolding hub_inv_def by fast
  then show ?thesis
    by (simp add: Broadcast h'(1))
next
  case (Register client)
  from adm have fresh: "ID client \<notin> fst ` set (clients r)"
    and fresh_ch: "Send client \<notin> (Send \<circ> snd) ` set (clients r)"
    and open_ch: "\<exists>ch. h (Send client) = Some ch \<and> \<not> closed ch"
    by (simp_all add: Register)
  have sub: "set (browsers r) \<subseteq> set (clients r)"
    using inv by (simp add: hub_inv_def)
  have fresh_b: "ID client \<notin> fst ` set (browsers r)"
    using fresh sub by auto
  have cl: "AList.update (ID client) client (clients r) = clients r @ [(ID client, client)]"
    using fresh by (rule update_fresh)
  have br: "AList.update (ID client) client (browsers r) = browsers r @ [(ID client, client)]"
    using fresh_b by (rule update_fresh)
  show ?thesis
  proof (cases "Type client = ClientTypeMoblin")
    case True
    from send_each_keeps_open [OF browsers_sends_distinct [OF inv] browsers_open [OF inv],
        of "Marshal_Type ''moblin_connected''"]
    obtain h' where h':
      "send_each (map snd (browsers r)) (Marshal_Type ''moblin_connected'') h = Inr h'"
      "\<forall>a ch. h a = Some ch \<and> \<not> closed ch \<longrightarrow> (\<exists>ch'. h' a = Some ch' \<and> \<not> closed ch')"
      by blast
    let ?r = "r\<lparr>clients := clients r @ [(ID client, client)], moblin := Some client\<rparr>"
    have run: "Run_step ev r h = Inr (?r, h')"
      using True h'(1) by (simp add: Register notifyBrowsers_def Let_def cl)
    have "hub_inv ?r h'"
      using inv fresh fresh_ch open_ch h'(2) unfolding hub_inv_def
      by (auto simp: image_iff)
    with run show ?thesis by blast
  next
    case False
    then have tb: "Type client = ClientTypeBrowser"
      by (cases "Type client") simp_all
    let ?r = "r\<lparr>clients := clients r @ [(ID client, client)],
                browsers := browsers r @ [(ID client, client)]\<rparr>"
    have run: "Run_step ev r h = Inr (?r, h)"
      using False by (simp add: Register Let_def cl br)
    have "hub_inv ?r h"
      using inv fresh fresh_b fresh_ch open_ch tb unfolding hub_inv_def
      by (auto simp: image_iff)
    with run show ?thesis by blast
  qed
next
  case (Unregister client)
  show ?thesis
  proof (cases "map_of (clients r) (ID client)")
    case None
    then show ?thesis using inv by (simp add: Unregister)
  next
    case (Some found)
    with adm have reg: "map_of (clients r) (ID client) = Some client"
      by (simp add: Unregister)
    then have mem: "(ID client, client) \<in> set (clients r)"
      by (rule map_of_SomeD)
    have dk: "distinct (map fst (clients r))"
      and ds: "distinct (map (Send \<circ> snd) (clients r))"
      and op: "\<forall>(k, c) \<in> set (clients r). \<exists>ch. h (Send c) = Some ch \<and> \<not> closed ch"
      and sub: "set (browsers r) \<subseteq> set (clients r)"
      and dkb: "distinct (map fst (browsers r))"
      and tyb: "\<forall>(k, b) \<in> set (browsers r). Type b = ClientTypeBrowser"
      using inv by (simp_all add: hub_inv_def)
    from op mem obtain cch where cch: "h (Send client) = Some cch" "\<not> closed cch"
      by auto
    let ?h1 = "h(Send client \<mapsto> cch\<lparr>closed := True\<rparr>)"
    have close: "close_chan (Send client) h = Inr ?h1"
      using cch by (simp add: close_chan_def)
    have inj: "inj_on (Send \<circ> snd) (set (clients r))"
      using ds by (simp add: distinct_map)
    have other: "Send c \<noteq> Send client" if "(k, c) \<in> set (clients r)" "k \<noteq> ID client" for k c
    proof
      assume "Send c = Send client"
      then have "(Send \<circ> snd) (k, c) = (Send \<circ> snd) (ID client, client)" by simp
      with inj that(1) mem have "(k, c) = (ID client, client)" by (meson inj_onD)
      with that(2) show False by simp
    qed
    have set_del: "set (AList.delete (ID client) (clients r)) =
                     {(k, c). (k, c) \<in> set (clients r) \<and> k \<noteq> ID client}"
      by (auto simp: AList.delete_eq)
    have set_delb: "set (AList.delete (ID client) (browsers r)) =
                     {(k, c). (k, c) \<in> set (browsers r) \<and> k \<noteq> ID client}"
      by (auto simp: AList.delete_eq)
    have i1: "distinct (map fst (AList.delete (ID client) (clients r)))"
      using dk by (rule distinct_delete)
    have i2: "distinct (map (Send \<circ> snd) (AList.delete (ID client) (clients r)))"
      using ds by (simp add: AList.delete_eq distinct_map_filter)
    have i3: "\<forall>(k, c) \<in> set (AList.delete (ID client) (clients r)).
                \<exists>ch. ?h1 (Send c) = Some ch \<and> \<not> closed ch"
      using op other by (auto simp: set_del)
    show ?thesis
    proof (cases "Type client = ClientTypeMoblin")
      case True
      have notb: "(k, b) \<in> set (browsers r) \<Longrightarrow> k \<noteq> ID client" for k b
      proof
        assume kb: "(k, b) \<in> set (browsers r)" and "k = ID client"
        then have "(ID client, b) \<in> set (clients r)" using sub by auto
        with dk have "map_of (clients r) (ID client) = Some b" by simp
        with reg have "b = client" by simp
        with kb tyb True show False by auto
      qed
      have i4: "set (browsers r) \<subseteq> set (AList.delete (ID client) (clients r))"
        using sub notb by (auto simp: set_del)
      let ?r2 = "r\<lparr>clients := AList.delete (ID client) (clients r), moblin := None\<rparr>"
      have inv2: "hub_inv ?r2 ?h1"
        using i1 i2 i3 i4 dkb tyb by (simp add: hub_inv_def)
      have d2: "distinct (map (Send \<circ> snd) (browsers r))"
        using inv by (rule browsers_sends_distinct)
      have o2: "\<forall>(k, b) \<in> set (browsers r). \<exists>ch. ?h1 (Send b) = Some ch \<and> \<not> closed ch"
        using browsers_open [OF inv2] by simp
      from send_each_keeps_open [OF d2 o2, of "Marshal_Type ''moblin_disconnected''"]
      obtain h' where h':
        "send_each (map snd (browsers r)) (Marshal_Type ''moblin_disconnected'') ?h1 = Inr h'"
        "\<forall>a ch. ?h1 a = Some ch \<and> \<not> closed ch \<longrightarrow> (\<exists>ch'. h' a = Some ch' \<and> \<not> closed ch')"
        by blast
      have run: "Run_step ev r h = Inr (?r2, h')"
        using True reg close h'(1) by (simp add: Unregister notifyBrowsers_def Let_def)
      have "hub_inv ?r2 h'"
        using inv2 h'(2) unfolding hub_inv_def by fast
      with run show ?thesis by blast
    next
      case False
      let ?r2 = "r\<lparr>clients := AList.delete (ID client) (clients r),
                   browsers := AList.delete (ID client) (browsers r)\<rparr>"
      have run: "Run_step ev r h = Inr (?r2, ?h1)"
        using False reg close by (simp add: Unregister Let_def)
      have i4: "set (AList.delete (ID client) (browsers r)) \<subseteq> set (AList.delete (ID client) (clients r))"
        using sub by (auto simp: set_del set_delb)
      have i5: "distinct (map fst (AList.delete (ID client) (browsers r)))"
        using dkb by (rule distinct_delete)
      have i6: "\<forall>(k, b) \<in> set (AList.delete (ID client) (browsers r)). Type b = ClientTypeBrowser"
        using tyb by (auto simp: set_delb)
      have "hub_inv ?r2 ?h1"
        using i1 i2 i3 i4 i5 i6 by (simp add: hub_inv_def)
      with run show ?thesis by blast
    qed
  qed
qed

lemma Run_never_panics:
  "hub_inv r h \<Longrightarrow> admissible_run evs r h \<Longrightarrow>
     \<exists>r' h'. Run evs r h = Inr (r', h') \<and> hub_inv r' h'"
proof (induction evs arbitrary: r h)
  case Nil
  then show ?case by simp
next
  case (Cons ev evs)
  from Cons.prems have adm: "admissible ev r h" by simp
  from Run_step_inv [OF Cons.prems(1) adm] obtain r1 h1
    where s: "Run_step ev r h = Inr (r1, h1)" and i: "hub_inv r1 h1"
    by blast
  from Cons.prems(2) s have "admissible_run evs r1 h1" by simp
  from Cons.IH [OF i this] show ?case by (simp add: s)
qed

lemma NewRelay_inv: "hub_inv (NewRelay pw) h"
  by (simp add: hub_inv_def NewRelay_def)

text \<open>
  C2: a broadcast round is a total step. In a hub whose registered peers have channels
  of their own that are open, as \<open>ServeWS\<close> makes them and as they stay until the peer
  is unregistered, the round ends without a panic, leaves the registry as it was, appends
  the frame to the queue of every registered peer that holds fewer than 256 frames,
  leaves every full queue as it was, and touches no other channel.
\<close>

theorem broadcast_never_blocks:
  assumes "distinct (map (Send \<circ> snd) (clients r))"
    and "\<forall>(k, c) \<in> set (clients r). \<exists>ch. h (Send c) = Some ch \<and> \<not> closed ch"
  shows "\<exists>h'. Run_step (Broadcast frame) r h = Inr (r, h')
          \<and> (\<forall>(k, c) \<in> set (clients r). \<forall>ch. h (Send c) = Some ch \<longrightarrow>
                h' (Send c) = Some (if length (buf ch) < 256 then ch\<lparr>buf := buf ch @ [frame]\<rparr> else ch))
          \<and> (\<forall>a. a \<notin> (Send \<circ> snd) ` set (clients r) \<longrightarrow> h' a = h a)"
proof -
  from send_each_pairs [OF assms, of frame] obtain h' where h':
    "send_each (map snd (clients r)) frame h = Inr h'"
    "\<forall>(k, c) \<in> set (clients r). \<forall>ch. h (Send c) = Some ch \<longrightarrow>
        h' (Send c) = Some (if length (buf ch) < 256 then ch\<lparr>buf := buf ch @ [frame]\<rparr> else ch)"
    "\<forall>a. a \<notin> (Send \<circ> snd) ` set (clients r) \<longrightarrow> h' a = h a"
    by blast
  have "Run_step (Broadcast frame) r h = Inr (r, h')"
    by (simp add: h'(1))
  with h'(2,3) show ?thesis by blast
qed

theorem broadcast_never_blocks_witness:
  "\<exists>h'. Run_step (Broadcast ''update'') S5_relay S5_chans = Inr (S5_relay, h')
      \<and> map_option buf (h' 1) = Some (replicate 256 ''frame'')
      \<and> map_option buf (h' 4) = Some [''update'']"
proof -
  have d: "distinct (map (Send \<circ> snd) (clients S5_relay))"
    by (simp add: S5_relay_def B1_def)
  have o: "\<forall>(k, c) \<in> set (clients S5_relay). \<exists>ch. S5_chans (Send c) = Some ch \<and> \<not> closed ch"
    by (simp add: S5_relay_def S5_chans_def B1_def)
  from broadcast_never_blocks [OF d o, of "''update''"] obtain h' where h':
    "Run_step (Broadcast ''update'') S5_relay S5_chans = Inr (S5_relay, h')"
    "\<forall>(k, c) \<in> set (clients S5_relay). \<forall>ch. S5_chans (Send c) = Some ch \<longrightarrow>
        h' (Send c) = Some (if length (buf ch) < 256 then ch\<lparr>buf := buf ch @ [''update'']\<rparr> else ch)"
    by blast
  from h'(2) have "map_option buf (h' 1) = Some (replicate 256 ''frame'')"
    and "map_option buf (h' 4) = Some [''update'']"
    by (simp_all add: S5_relay_def S5_chans_def B1_def)
  with h'(1) show ?thesis by blast
qed

lemma Marshal_moblin_connected:
  \<open>Marshal_Type ''moblin_connected'' = ''{"type":"moblin_connected"}''\<close>
  by (simp add: Marshal_Type_def)

lemma Marshal_moblin_disconnected:
  \<open>Marshal_Type ''moblin_disconnected'' = ''{"type":"moblin_disconnected"}''\<close>
  by (simp add: Marshal_Type_def)

text \<open>
  C5 as stated fails on the type strings: the frame that the hub sends when a
  controller registers has the type \<open>moblin_connected\<close>.
\<close>

theorem lifecycle_frames_counterexample:
  \<open>\<not> isl (Run [Register B1, Register C1] (NewRelay '''') S4_chans)
   \<and> map_option buf (snd (projr (Run [Register B1, Register C1] (NewRelay '''') S4_chans)) 1)
       = Some [''{"type":"moblin_connected"}'']
   \<and> ''{"type":"moblin_connected"}'' \<noteq> ''{"type":"controller_connected"}''\<close>
  by (simp add: NewRelay_def S4_chans_def B1_def C1_def notifyBrowsers_def try_send_def
        Marshal_Type_def)

text \<open>
  C5, amended: when a controller registers, the slot holds it and the frame with type
  \<open>moblin_connected\<close> is appended to the queue of every browser that holds fewer than 256
  frames; when the controller that is registered and holds the slot is unregistered, the
  slot is emptied and the frame with type \<open>moblin_disconnected\<close> is appended likewise. A
  browser whose queue is full is skipped.
\<close>

theorem lifecycle_frames:
  \<open>(Type client = ClientTypeMoblin
      \<and> distinct (map (Send \<circ> snd) (browsers r))
      \<and> (\<forall>(k, b) \<in> set (browsers r). \<exists>ch. h (Send b) = Some ch \<and> \<not> closed ch)
     \<longrightarrow> (\<exists>h'. Run_step (Register client) r h =
                 Inr (r\<lparr>clients := AList.update (ID client) client (clients r),
                        moblin := Some client\<rparr>, h')
            \<and> (\<forall>(k, b) \<in> set (browsers r). \<forall>ch. h (Send b) = Some ch \<longrightarrow>
                  h' (Send b) = Some (if length (buf ch) < 256
                                      then ch\<lparr>buf := buf ch @ [''{"type":"moblin_connected"}'']\<rparr>
                                      else ch))))
   \<and> (Type client = ClientTypeMoblin
      \<and> map_of (clients r) (ID client) = Some client
      \<and> moblin r = Some client
      \<and> distinct (map (Send \<circ> snd) (browsers r))
      \<and> (\<forall>(k, b) \<in> set (browsers r). \<exists>ch. h (Send b) = Some ch \<and> \<not> closed ch)
      \<and> (\<exists>ch. h (Send client) = Some ch \<and> \<not> closed ch)
      \<and> Send client \<notin> (Send \<circ> snd) ` set (browsers r)
     \<longrightarrow> (\<exists>h'. Run_step (Unregister client) r h =
                 Inr (r\<lparr>clients := AList.delete (ID client) (clients r), moblin := None\<rparr>, h')
            \<and> (\<forall>(k, b) \<in> set (browsers r). \<forall>ch. h (Send b) = Some ch \<longrightarrow>
                  h' (Send b) = Some (if length (buf ch) < 256
                                      then ch\<lparr>buf := buf ch @ [''{"type":"moblin_disconnected"}'']\<rparr>
                                      else ch))))\<close>
proof (intro conjI impI; elim conjE)
  assume t: "Type client = ClientTypeMoblin"
    and d: "distinct (map (Send \<circ> snd) (browsers r))"
    and o: "\<forall>(k, b) \<in> set (browsers r). \<exists>ch. h (Send b) = Some ch \<and> \<not> closed ch"
  from send_each_pairs [OF d o, of "Marshal_Type ''moblin_connected''"] obtain h' where h':
    "send_each (map snd (browsers r)) (Marshal_Type ''moblin_connected'') h = Inr h'"
    "\<forall>(k, b) \<in> set (browsers r). \<forall>ch. h (Send b) = Some ch \<longrightarrow>
        h' (Send b) = Some (if length (buf ch) < 256
                            then ch\<lparr>buf := buf ch @ [Marshal_Type ''moblin_connected'']\<rparr> else ch)"
    by blast
  have "Run_step (Register client) r h =
          Inr (r\<lparr>clients := AList.update (ID client) client (clients r), moblin := Some client\<rparr>, h')"
    using t h'(1) by (simp add: notifyBrowsers_def Let_def)
  with h'(2) show \<open>\<exists>h'. Run_step (Register client) r h =
                 Inr (r\<lparr>clients := AList.update (ID client) client (clients r),
                        moblin := Some client\<rparr>, h')
            \<and> (\<forall>(k, b) \<in> set (browsers r). \<forall>ch. h (Send b) = Some ch \<longrightarrow>
                  h' (Send b) = Some (if length (buf ch) < 256
                                      then ch\<lparr>buf := buf ch @ [''{"type":"moblin_connected"}'']\<rparr>
                                      else ch))\<close>
    unfolding Marshal_moblin_connected by blast
next
  assume t: "Type client = ClientTypeMoblin"
    and reg: "map_of (clients r) (ID client) = Some client"
    and d: "distinct (map (Send \<circ> snd) (browsers r))"
    and o: "\<forall>(k, b) \<in> set (browsers r). \<exists>ch. h (Send b) = Some ch \<and> \<not> closed ch"
    and oc: "\<exists>ch. h (Send client) = Some ch \<and> \<not> closed ch"
    and notin: "Send client \<notin> (Send \<circ> snd) ` set (browsers r)"
  from oc obtain cch where cch: "h (Send client) = Some cch" "\<not> closed cch" by blast
  let ?h1 = "h(Send client \<mapsto> cch\<lparr>closed := True\<rparr>)"
  have cl: "close_chan (Send client) h = Inr ?h1"
    using cch by (simp add: close_chan_def)
  have same: "\<forall>(k, b) \<in> set (browsers r). ?h1 (Send b) = h (Send b)"
    using notin by (auto simp: image_iff)
  have o1: "\<forall>(k, b) \<in> set (browsers r). \<exists>ch. ?h1 (Send b) = Some ch \<and> \<not> closed ch"
    using o same by fastforce
  from send_each_pairs [OF d o1, of "Marshal_Type ''moblin_disconnected''"] obtain h' where h':
    "send_each (map snd (browsers r)) (Marshal_Type ''moblin_disconnected'') ?h1 = Inr h'"
    "\<forall>(k, b) \<in> set (browsers r). \<forall>ch. ?h1 (Send b) = Some ch \<longrightarrow>
        h' (Send b) = Some (if length (buf ch) < 256
                            then ch\<lparr>buf := buf ch @ [Marshal_Type ''moblin_disconnected'']\<rparr> else ch)"
    by blast
  have run: "Run_step (Unregister client) r h =
          Inr (r\<lparr>clients := AList.delete (ID client) (clients r), moblin := None\<rparr>, h')"
    using t reg cl h'(1) by (simp add: notifyBrowsers_def Let_def)
  have "\<forall>(k, b) \<in> set (browsers r). \<forall>ch. h (Send b) = Some ch \<longrightarrow>
        h' (Send b) = Some (if length (buf ch) < 256
                            then ch\<lparr>buf := buf ch @ [Marshal_Type ''moblin_disconnected'']\<rparr> else ch)"
    using h'(2) same by fastforce
  with run show \<open>\<exists>h'. Run_step (Unregister client) r h =
                 Inr (r\<lparr>clients := AList.delete (ID client) (clients r), moblin := None\<rparr>, h')
            \<and> (\<forall>(k, b) \<in> set (browsers r). \<forall>ch. h (Send b) = Some ch \<longrightarrow>
                  h' (Send b) = Some (if length (buf ch) < 256
                                      then ch\<lparr>buf := buf ch @ [''{"type":"moblin_disconnected"}'']\<rparr>
                                      else ch))\<close>
    unfolding Marshal_moblin_disconnected by blast
qed

theorem lifecycle_frames_witness:
  \<open>(\<exists>h'. Run_step (Register C1) S4_relay S4_chans = Inr (S4_relay_C1, h')
          \<and> map_option buf (h' 1) = Some [''{"type":"moblin_connected"}''])
   \<and> (\<exists>h'. Run_step (Unregister C1) S4_relay_C1 S4_chans = Inr (S4_relay, h')
          \<and> map_option buf (h' 1) = Some [''{"type":"moblin_disconnected"}''])\<close>
proof
  have "Type C1 = ClientTypeMoblin
      \<and> distinct (map (Send \<circ> snd) (browsers S4_relay))
      \<and> (\<forall>(k, b) \<in> set (browsers S4_relay). \<exists>ch. S4_chans (Send b) = Some ch \<and> \<not> closed ch)"
    by (simp add: S4_relay_def S4_chans_def B1_def C1_def)
  with lifecycle_frames [of C1 S4_relay S4_chans] obtain h' where h':
    "Run_step (Register C1) S4_relay S4_chans =
       Inr (S4_relay\<lparr>clients := AList.update (ID C1) C1 (clients S4_relay), moblin := Some C1\<rparr>, h')"
    \<open>\<forall>(k, b) \<in> set (browsers S4_relay). \<forall>ch. S4_chans (Send b) = Some ch \<longrightarrow>
        h' (Send b) = Some (if length (buf ch) < 256
                            then ch\<lparr>buf := buf ch @ [''{"type":"moblin_connected"}'']\<rparr> else ch)\<close>
    by blast
  have r: "S4_relay\<lparr>clients := AList.update (ID C1) C1 (clients S4_relay), moblin := Some C1\<rparr>
             = S4_relay_C1"
    by (simp add: S4_relay_def S4_relay_C1_def B1_def C1_def)
  from h'(2) have \<open>map_option buf (h' 1) = Some [''{"type":"moblin_connected"}'']\<close>
    by (simp add: S4_relay_def S4_chans_def B1_def)
  with h'(1) r show \<open>\<exists>h'. Run_step (Register C1) S4_relay S4_chans = Inr (S4_relay_C1, h')
          \<and> map_option buf (h' 1) = Some [''{"type":"moblin_connected"}'']\<close>
    by auto
next
  have "Type C1 = ClientTypeMoblin
      \<and> map_of (clients S4_relay_C1) (ID C1) = Some C1
      \<and> moblin S4_relay_C1 = Some C1
      \<and> distinct (map (Send \<circ> snd) (browsers S4_relay_C1))
      \<and> (\<forall>(k, b) \<in> set (browsers S4_relay_C1). \<exists>ch. S4_chans (Send b) = Some ch \<and> \<not> closed ch)
      \<and> (\<exists>ch. S4_chans (Send C1) = Some ch \<and> \<not> closed ch)
      \<and> Send C1 \<notin> (Send \<circ> snd) ` set (browsers S4_relay_C1)"
    by (simp add: S4_relay_C1_def S4_chans_def B1_def C1_def)
  with lifecycle_frames [of C1 S4_relay_C1 S4_chans] obtain h' where h':
    "Run_step (Unregister C1) S4_relay_C1 S4_chans =
       Inr (S4_relay_C1\<lparr>clients := AList.delete (ID C1) (clients S4_relay_C1), moblin := None\<rparr>, h')"
    \<open>\<forall>(k, b) \<in> set (browsers S4_relay_C1). \<forall>ch. S4_chans (Send b) = Some ch \<longrightarrow>
        h' (Send b) = Some (if length (buf ch) < 256
                            then ch\<lparr>buf := buf ch @ [''{"type":"moblin_disconnected"}'']\<rparr> else ch)\<close>
    by blast
  have r: "S4_relay_C1\<lparr>clients := AList.delete (ID C1) (clients S4_relay_C1), moblin := None\<rparr>
             = S4_relay"
    by (simp add: S4_relay_def S4_relay_C1_def B1_def C1_def)
  from h'(2) have \<open>map_option buf (h' 1) = Some [''{"type":"moblin_disconnected"}'']\<close>
    by (simp add: S4_relay_C1_def S4_chans_def B1_def)
  with h'(1) r show \<open>\<exists>h'. Run_step (Unregister C1) S4_relay_C1 S4_chans = Inr (S4_relay, h')
          \<and> map_option buf (h' 1) = Some [''{"type":"moblin_disconnected"}'']\<close>
    by auto
qed

text \<open>
  C1: the code at the input of scenario S4. After \<open>B1\<close>, \<open>C1\<close> and \<open>C2\<close> have
  registered the slot holds \<open>C2\<close>. The round for the unregister event of \<open>C1\<close> finds \<open>C1\<close> in
  the registry and, without comparing it with the slot, empties the slot and sends
  \<open>moblin_disconnected\<close> to \<open>B1\<close>.
\<close>

theorem stale_unregister_clears_slot:
  \<open>\<not> isl (Run [Register B1, Register C1, Register C2] (NewRelay '''') S4_chans)
   \<and> moblin (fst (projr (Run [Register B1, Register C1, Register C2] (NewRelay '''') S4_chans)))
       = Some C2
   \<and> \<not> isl (Run [Register B1, Register C1, Register C2, Unregister C1] (NewRelay '''') S4_chans)
   \<and> moblin (fst (projr (Run [Register B1, Register C1, Register C2, Unregister C1]
                            (NewRelay '''') S4_chans))) = None
   \<and> map_option buf (snd (projr (Run [Register B1, Register C1, Register C2, Unregister C1]
                                    (NewRelay '''') S4_chans)) 1)
       = Some [''{"type":"moblin_connected"}'', ''{"type":"moblin_connected"}'',
               ''{"type":"moblin_disconnected"}'']\<close>
  by (simp add: NewRelay_def S4_chans_def B1_def C1_def C2_def notifyBrowsers_def try_send_def
        close_chan_def Marshal_Type_def)

end
